theory Spec2Isabelle
  imports Complex_Main "HOL-Library.Multiset"
begin

text \<open>
  A shallow embedding of the benchmark's measurement and reporting core:
  the statistics helpers and \<open>withRetries\<close> of \<open>lib/utils.js\<close>, the in-page timing
  collector, the poll loop and the trial runner of the browser module, the record
  assembly of \<open>bin/bench.js\<close> and the CSV report.
\<close>

section \<open>Statistics module (lib/utils.js)\<close>

text \<open>
  JavaScript numbers are modelled as reals and \<open>null\<close> as \<open>None\<close>. Sums, differences and
  quotients are taken exactly. The product in \<open>percentile\<close> is rounded as the language
  rounds it, because there the rounding decides which element is returned: \<open>to_double\<close>
  is the double nearest to a real (53 significant bits, a tie going to the even
  significand, steps of \<open>2^-1074\<close> below the normal range), and \<open>js_mul\<close> the product of two
  numbers. A real beyond the largest double stays finite here where the language has
  \<open>Infinity\<close>; \<open>Math.ceil\<close> and the clamp of \<open>percentile\<close> treat both alike.
  \<open>[...values].sort((a, b) => a - b)\<close> is the ascending numeric sort.
\<close>

definition round_even :: "real \<Rightarrow> int" where
  \<comment> \<open>the nearest integer, a tie going to the even one\<close>
  "round_even x =
     (let f = \<lfloor>x\<rfloor>; d = x - real_of_int f
      in if d < 1 / 2 then f
         else if 1 / 2 < d then f + 1
         else if even f then f else f + 1)"

definition to_double :: "real \<Rightarrow> real" where
  "to_double x =
     (if x = 0 then 0
      else let e = max (\<lfloor>log 2 \<bar>x\<bar>\<rfloor> - 52) (- 1074)
           in real_of_int (round_even (x / 2 powr real_of_int e)) * 2 powr real_of_int e)"

definition js_mul :: "real \<Rightarrow> real \<Rightarrow> real" where
  \<comment> \<open>\<open>a * b\<close> on numbers\<close>
  "js_mul a b = to_double (to_double a * to_double b)"

definition median :: "real list \<Rightarrow> real option" where
  "median values =
     (if length values = 0 then None
      else let sorted = sort values; mid = length sorted div 2
           in Some (if length sorted mod 2 = 1 then sorted ! mid
                    else (sorted ! (mid - 1) + sorted ! mid) / 2))"

definition percentile :: "real list \<Rightarrow> real \<Rightarrow> real option" where
  "percentile values p =
     (if length values = 0 then None
      else let sorted = sort values;
               idx = \<lceil>js_mul p (real (length sorted))\<rceil> - 1
           in Some (sorted ! nat (max 0 (min (int (length sorted) - 1) idx))))"

definition mean :: "real list \<Rightarrow> real option" where
  "mean values =
     (if length values = 0 then None
      else Some (fold (\<lambda>v sum. sum + v) values 0 / real (length values)))"

definition stdDev :: "real list \<Rightarrow> real option" where
  "stdDev values =
     (if length values < 2 then None
      else case mean values of
             None \<Rightarrow> None
           | Some avg \<Rightarrow>
               let squareDiffs = map (\<lambda>v. (v - avg) ^ 2) values
               in Some (sqrt (fold (\<lambda>v sum. sum + v) squareDiffs 0 / real (length values - 1))))"

definition improvement :: "real option \<Rightarrow> real option \<Rightarrow> real option" where
  "improvement originMs cdnMs =
     (case (originMs, cdnMs) of
        (Some origin, Some cdn) \<Rightarrow>
          if origin = 0 then None else Some (((origin - cdn) / origin) * 100)
      | _ \<Rightarrow> None)"

definition js_round :: "real \<Rightarrow> int" where
  \<comment> \<open>\<open>Math.round\<close>: the nearest integer, a tie going up.\<close>
  "js_round x = \<lfloor>x + 1 / 2\<rfloor>"

subsection \<open>withRetries\<close>

text \<open>
  The operation \<open>fn(attempt, total)\<close> either returns (\<open>Inr\<close>) or throws (\<open>Inl\<close>); its
  outcome may depend on the attempt number. What the function does besides returning is
  recorded as a trace: each invocation of the operation, each call of the observer
  \<open>onRetry(attempt, total, error, delay)\<close> and each \<open>sleep(delay)\<close>. The observer is
  optional in the source (\<open>if (onRetry)\<close>); \<open>onRetry\<close> below says whether one was passed.
  \<open>lastError\<close> starts as \<open>null\<close>, so the value thrown at the end is an option.
\<close>

datatype 'e retry_event =
    Invoke int int
  | OnRetry int int 'e int
  | Sleep int

function withRetries_loop ::
  "(int \<Rightarrow> int \<Rightarrow> 'e + 'a) \<Rightarrow> int \<Rightarrow> int \<Rightarrow> bool \<Rightarrow> 'e option \<Rightarrow> int
     \<Rightarrow> 'e retry_event list \<times> ('e option + 'a)" where
  "withRetries_loop fn total' backoffMs onRetry lastError attempt =
     (if attempt \<le> total' then
        (case fn attempt total' of
           Inr v \<Rightarrow> ([Invoke attempt total'], Inr v)
         | Inl error \<Rightarrow>
             if attempt \<ge> total' then ([Invoke attempt total'], Inl (Some error))
             else
               let delay = backoffMs * 2 ^ nat (attempt - 1);
                   rest = withRetries_loop fn total' backoffMs onRetry (Some error) (attempt + 1)
               in ([Invoke attempt total']
                     @ (if onRetry then [OnRetry attempt total' error delay] else [])
                     @ (if delay > 0 then [Sleep delay] else [])
                     @ fst rest,
                   snd rest))
      else ([], Inl lastError))"
  by pat_completeness auto
termination
  by (relation "measure (\<lambda>(fn, total', backoffMs, onRetry, lastError, attempt). nat (total' + 1 - attempt))")
     auto

definition withRetries ::
  "(int \<Rightarrow> int \<Rightarrow> 'e + 'a) \<Rightarrow> int \<Rightarrow> int \<Rightarrow> bool \<Rightarrow> 'e retry_event list \<times> ('e option + 'a)" where
  "withRetries fn attempts backoffMs onRetry =
     (let total' = max 1 attempts
      in withRetries_loop fn total' backoffMs onRetry None 1)"

definition invocations :: "'e retry_event list \<Rightarrow> 'e retry_event list" where
  "invocations evs = filter (\<lambda>ev. case ev of Invoke a t \<Rightarrow> True | _ \<Rightarrow> False) evs"

definition observations :: "'e retry_event list \<Rightarrow> 'e retry_event list" where
  "observations evs = filter (\<lambda>ev. case ev of OnRetry a t e d \<Rightarrow> True | _ \<Rightarrow> False) evs"

section \<open>Timing collector (runs in the page)\<close>

subsection \<open>Host patterns\<close>

text \<open>
  The string methods \<open>matchHost\<close> uses. \<open>split\<close> is \<open>String.prototype.split\<close> with a
  one-character separator; \<open>indexOf host part index\<close> is the position of the first
  occurrence of \<open>part\<close> in \<open>host\<close> at or after \<open>index\<close>, \<open>None\<close> for \<open>-1\<close>. It is
  only called with the non-empty parts that \<open>filter(Boolean)\<close> keeps and with an \<open>index\<close>
  inside the host.
\<close>

definition startsWith :: "string \<Rightarrow> string \<Rightarrow> bool" where
  "startsWith s p = (take (length p) s = p)"

definition endsWith :: "string \<Rightarrow> string \<Rightarrow> bool" where
  "endsWith s p = (length p \<le> length s \<and> drop (length s - length p) s = p)"

fun split :: "char \<Rightarrow> string \<Rightarrow> string list" where
  "split c [] = [[]]"
| "split c (x # xs) =
     (if x = c then [] # split c xs
      else (case split c xs of [] \<Rightarrow> [[x]] | p # ps \<Rightarrow> (x # p) # ps))"

function indexOf :: "string \<Rightarrow> string \<Rightarrow> nat \<Rightarrow> nat option" where
  "indexOf host part index =
     (if index + length part > length host then None
      else if take (length part) (drop index host) = part then Some index
      else indexOf host part (Suc index))"
  by pat_completeness auto
termination
  by (relation "measure (\<lambda>(host, part, index). Suc (length host) - index)") auto

fun scanParts :: "string \<Rightarrow> string list \<Rightarrow> nat \<Rightarrow> bool" where
  \<comment> \<open>the \<open>for (const part of parts)\<close> loop, \<open>index\<close> being its running variable\<close>
  "scanParts host [] index = True"
| "scanParts host (part # parts) index =
     (case indexOf host part index of
        None \<Rightarrow> False
      | Some found \<Rightarrow> scanParts host parts (found + length part))"

definition matchHost :: "string \<Rightarrow> string \<Rightarrow> bool" where
  "matchHost host pattern =
     (if pattern = [] \<or> host = [] then False
      else if CHR ''*'' \<notin> set pattern then host = pattern
      else
        let parts = filter (\<lambda>s. s \<noteq> []) (split CHR ''*'' pattern)
        in if length parts = 0 then True
           else if \<not> startsWith pattern ''*'' \<and> \<not> startsWith host (hd parts) then False
           else if \<not> endsWith pattern ''*'' \<and> \<not> endsWith host (last parts) then False
           else scanParts host parts 0)"

definition allowedHost :: "string list \<Rightarrow> string \<Rightarrow> bool" where
  "allowedHost allowHosts host =
     (length allowHosts = 0 \<or> list_ex (\<lambda>p. matchHost host p) allowHosts)"

text \<open>
  The wildcard reading of a pattern, as the specification words it: \<open>*\<close> stands for any
  run of characters, every other character for itself, and the pattern covers the
  whole host (so it is anchored wherever it does not begin or end with \<open>*\<close>).
\<close>

fun wildcard_match :: "string \<Rightarrow> string \<Rightarrow> bool" where
  "wildcard_match [] host = (host = [])"
| "wildcard_match (c # pattern) host =
     (if c = CHR ''*'' then list_ex (\<lambda>k. wildcard_match pattern (drop k host)) [0..<Suc (length host)]
      else (case host of [] \<Rightarrow> False | d # host' \<Rightarrow> c = d \<and> wildcard_match pattern host'))"

text \<open>
  Two readings of a pattern already cut at its \<open>*\<close>s, used to relate \<open>matchHost\<close> to
  \<open>wildcard_match\<close>: \<open>anchored_match\<close> wants the first piece at the start of the host and
  the others after it; \<open>free_match\<close> lets the first piece start anywhere. In both the last
  piece ends the host.
\<close>

fun free_match :: "string list \<Rightarrow> string \<Rightarrow> bool" where
  "free_match [] host = True"
| "free_match [s] host = endsWith host s"
| "free_match (s # t # ss) host =
     (\<exists>k \<le> length host. k + length s \<le> length host \<and> take (length s) (drop k host) = s
        \<and> free_match (t # ss) (drop (k + length s) host))"

fun anchored_match :: "string list \<Rightarrow> string \<Rightarrow> bool" where
  "anchored_match [] host = (host = [])"
| "anchored_match [s] host = (host = s)"
| "anchored_match (s # t # ss) host =
     (startsWith host s \<and> free_match (t # ss) (drop (length s) host))"

subsection \<open>The page as the collector sees it\<close>

text \<open>
  An \<open><img>\<close> element, a \<open>PerformanceResourceTiming\<close> entry, and the page: its images in
  document order, its resource-timing buffer, and the host name that
  \<open>new URL(src, document.baseURI).hostname\<close> yields (\<open>None\<close> where the constructor throws).
\<close>

record img =
  img_currentSrc :: string
  img_src :: string
  img_complete :: bool
  img_naturalWidth :: nat

record resource_entry =
  r_name :: string
  r_startTime :: real
  r_responseStart :: real
  r_responseEnd :: real
  r_duration :: real
  r_transferSize :: real

record page =
  images :: "img list"
  resourceEntries :: "resource_entry list"
  url_hostname :: "string \<Rightarrow> string option"

record img_entry =
  e_img :: img
  e_src :: string
  e_hostname :: string

record image_timing =
  url :: string
  responseEnd :: "real option"
  ttfb :: "real option"
  duration :: "real option"
  transferSize :: "real option"
  noTiming :: bool

record image_stats =
  total' :: nat
  loaded :: nat
  failed :: nat
  pending :: nat
  failedUrls :: "string list"
  pendingUrls :: "string list"
  urls :: "string list"
  hosts :: "string list"
  maxResponseEnd :: "real option"
  imagesOnlyMs :: "real option"
  avgImageMs :: "real option"
  sumImageMs :: "real option"
  imageTimings :: "image_timing list"

definition num :: "real option \<Rightarrow> real" where
  \<comment> \<open>a value used as a number: \<open>null\<close> counts as 0\<close>
  "num v = (case v of None \<Rightarrow> 0 | Some x \<Rightarrow> x)"

definition Math_min :: "real list \<Rightarrow> real option" where
  \<comment> \<open>\<open>Math.min(...xs)\<close>; only called on a non-empty list\<close>
  "Math_min xs = (case xs of [] \<Rightarrow> None | x # rest \<Rightarrow> Some (fold min rest x))"

definition Math_max :: "real list \<Rightarrow> real option" where
  "Math_max xs = (case xs of [] \<Rightarrow> None | x # rest \<Rightarrow> Some (fold max rest x))"

definition uniq :: "'a list \<Rightarrow> 'a list" where
  \<comment> \<open>\<open>[...new Set(xs)]\<close>: the first occurrence of each element, in order\<close>
  "uniq xs = rev (remdups (rev xs))"

definition imgData :: "page \<Rightarrow> string list \<Rightarrow> string list \<Rightarrow> img_entry list" where
  "imgData pg ignoreHosts allowHosts =
     filter (\<lambda>e. allowedHost allowHosts (e_hostname e))
       (filter (\<lambda>e. e_hostname e \<notin> set ignoreHosts)
          (map the
             (filter (\<lambda>x. x \<noteq> None)
                (map (\<lambda>img.
                        let src = (if img_currentSrc img \<noteq> [] then img_currentSrc img else img_src img)
                        in if src = [] then None
                           else (case url_hostname pg src of
                                   None \<Rightarrow> None
                                 | Some h \<Rightarrow> Some \<lparr>e_img = img, e_src = src, e_hostname = h\<rparr>))
                   (images pg)))))"

definition findTiming :: "resource_entry list \<Rightarrow> img_entry \<Rightarrow> resource_entry option" where
  "findTiming entries entry =
     find (\<lambda>r. r_name r = e_src entry \<or> r_name r = img_currentSrc (e_img entry)) entries"

definition classifyImage ::
  "resource_entry list \<Rightarrow> img_entry \<Rightarrow> image_timing list \<times> string list
     \<Rightarrow> image_timing list \<times> string list" where
  \<comment> \<open>one pass of the loop over \<open>imgData\<close>, on the pair \<open>(imageTimings, failedUrls)\<close>\<close>
  "classifyImage entries entry acc =
     (case findTiming entries entry of
        Some timing \<Rightarrow>
          (fst acc @ [\<lparr>url = e_src entry,
                       responseEnd = Some (r_responseEnd timing),
                       ttfb = Some (r_responseStart timing - r_startTime timing),
                       duration = Some (r_duration timing),
                       transferSize = Some (r_transferSize timing),
                       noTiming = False\<rparr>],
           snd acc)
      | None \<Rightarrow>
          if img_complete (e_img entry) \<and> img_naturalWidth (e_img entry) > 0 then
            (fst acc @ [\<lparr>url = e_src entry, responseEnd = None, ttfb = None, duration = None,
                         transferSize = None, noTiming = True\<rparr>],
             snd acc)
          else if img_complete (e_img entry) \<and> img_naturalWidth (e_img entry) = 0 then
            (fst acc, snd acc @ [e_src entry])
          else acc)"

definition collectImageTimings :: "page \<Rightarrow> string list \<Rightarrow> string list \<Rightarrow> image_stats" where
  "collectImageTimings pg ignoreHosts allowHosts =
     (let data = imgData pg ignoreHosts allowHosts;
          classified = fold (classifyImage (resourceEntries pg)) data ([], []);
          timings = fst classified;
          failedList = snd classified;
          timingsWithData = filter (\<lambda>t. responseEnd t \<noteq> None \<and> duration t \<noteq> None) timings;
          starts = map (\<lambda>t. num (responseEnd t) - num (duration t)) timingsWithData;
          ends = map (\<lambda>t. num (responseEnd t)) timingsWithData;
          firstStart = Math_min starts;
          lastEnd = Math_max ends;
          durationSum = fold (\<lambda>t sum. sum + num (duration t)) timingsWithData 0;
          pendingList = map e_src (filter (\<lambda>e. \<not> img_complete (e_img e)) data)
      in \<lparr>total' = length data,
          loaded = length timings,
          failed = length failedList,
          pending = length pendingList,
          failedUrls = failedList,
          pendingUrls = pendingList,
          urls = map e_src data,
          hosts = uniq (map e_hostname data),
          maxResponseEnd = (if length timingsWithData > 0 then lastEnd else None),
          imagesOnlyMs =
            (if length timingsWithData > 0
             then (case (lastEnd, firstStart) of
                     (Some e, Some s) \<Rightarrow> Some (e - s)
                   | _ \<Rightarrow> None)
             else None),
          avgImageMs =
            (if length timingsWithData > 0
             then Some (durationSum / real (length timingsWithData)) else None),
          sumImageMs = (if length timingsWithData > 0 then Some durationSum else None),
          imageTimings = timings\<rparr>)"

section \<open>Trial runner\<close>

text \<open>
  The browser is the environment of a trial. A thrown error carries a name and a
  message. \<open>goto_result\<close> is the outcome of \<open>page.goto\<close> (its response may be \<open>null\<close>),
  \<open>scroll_result\<close> that of the scrolling script, \<open>page_at k\<close> what the \<open>k\<close>-th evaluation
  of the collector finds (the page then, or the error \<open>page.evaluate\<close> throws),
  \<open>metrics_result\<close> the final metrics script (\<open>None\<close> when it throws). Time is explicit:
  \<open>goto_ms\<close>, \<open>scroll_ms\<close> and \<open>collect_ms k\<close> are what the calls take on the clock
  \<open>Date.now()\<close> reads, and \<open>sleep(ms)\<close> takes \<open>ms\<close>. Creating the context and the page,
  the init script, disabling the cache and closing the context are taken to succeed;
  console output is left out.
\<close>

datatype js_error = JsError (err_name: string) (err_message: string)

record nav_response =
  resp_status :: int
  resp_url :: string

record page_metrics =
  m_ttfb :: "real option"
  m_lcp :: "real option"
  m_userAgent :: string
  m_viewport :: "int \<times> int"

record browser_env =
  goto_result :: "js_error + nav_response option"
  goto_ms :: nat
  scroll_result :: "js_error option"
  scroll_ms :: nat
  page_at :: "nat \<Rightarrow> js_error + page"
  collect_ms :: "nat \<Rightarrow> nat"
  metrics_result :: "page_metrics option"

definition IGNORED_IMAGE_HOSTS :: "string list" where
  "IGNORED_IMAGE_HOSTS = [''ad.adriver.ru'', ''ev.adriver.ru'']"

definition pollMs :: int where
  "pollMs = 200"

record wait_result =
  w_timeout :: bool
  w_timeoutReason :: "string option"
  w_stats :: image_stats

text \<open>
  The poll loop. \<open>elapsed\<close> is \<open>Date.now() - startTime\<close> at the loop test and \<open>k\<close> counts the
  evaluations of the collector made so far. The result comes with the time elapsed when
  the function returns. \<open>collectImageTimings\<close> always returns an object, so the
  \<open>stats_error\<close> return of the source cannot be taken and has no branch here.
\<close>

function waitForImages_loop ::
  "browser_env \<Rightarrow> string list \<Rightarrow> string list \<Rightarrow> int \<Rightarrow> int \<Rightarrow> nat
     \<Rightarrow> js_error + (wait_result \<times> int)" where
  "waitForImages_loop env ignoreHosts allowHosts maxWaitMs elapsed k =
     (if elapsed < maxWaitMs then
        (case page_at env k of
           Inl err \<Rightarrow> Inl err
         | Inr pg \<Rightarrow>
             let stats = collectImageTimings pg ignoreHosts allowHosts;
                 now = elapsed + int (collect_ms env k)
             in if total' stats = 0 \<or> total' stats = failed stats then
                  Inr (\<lparr>w_timeout = False, w_timeoutReason = Some ''no_images'', w_stats = stats\<rparr>, now)
                else if pending stats = 0 then
                  Inr (\<lparr>w_timeout = False,
                        w_timeoutReason = (if failed stats > 0 then Some ''images_failed'' else None),
                        w_stats = stats\<rparr>, now)
                else waitForImages_loop env ignoreHosts allowHosts maxWaitMs (now + pollMs) (Suc k))
      else
        (case page_at env k of
           Inl err \<Rightarrow> Inl err
         | Inr pg \<Rightarrow>
             Inr (\<lparr>w_timeout = True, w_timeoutReason = Some ''timeout'',
                   w_stats = collectImageTimings pg ignoreHosts allowHosts\<rparr>,
                  elapsed + int (collect_ms env k))))"
  by pat_completeness auto
termination
  by (relation "measure (\<lambda>(env, ignoreHosts, allowHosts, maxWaitMs, elapsed, k). nat (maxWaitMs - elapsed))")
     (auto simp: pollMs_def)

definition waitForImages ::
  "browser_env \<Rightarrow> string list \<Rightarrow> string list \<Rightarrow> int \<Rightarrow> js_error + (wait_result \<times> int)" where
  "waitForImages env ignoreHosts allowHosts maxWaitMs =
     waitForImages_loop env ignoreHosts allowHosts maxWaitMs 0 0"

definition autoScroll :: "browser_env \<Rightarrow> int option \<Rightarrow> js_error + nat" where
  \<comment> \<open>returns the time the scrolling took\<close>
  "autoScroll env delayMs =
     (case delayMs of
        None \<Rightarrow> Inr 0
      | Some d \<Rightarrow>
          if d < 0 then Inr 0
          else (case scroll_result env of Some err \<Rightarrow> Inl err | None \<Rightarrow> Inr (scroll_ms env)))"

record trial_result =
  imagesLoadedMs :: "int option"
  res_avgImageMs :: "int option"
  res_sumImageMs :: "int option"
  timeout :: bool
  timeoutReason :: "string option"
  imagesTotal :: int
  imagesLoaded :: nat
  imagesFailed :: nat
  imagesPending :: nat
  navStatus :: "int option"
  navError :: "string option"
  navUrl :: "string option"
  errorsCount :: nat
  userAgent :: "string option"
  viewport :: "(int \<times> int) option"
  ttfbMs :: "int option"
  lcpMs :: "int option"
  imageUrls :: "string list"
  imageFailedUrls :: "string list"
  imageHosts :: "string list"

definition navFailedStats :: image_stats where
  \<comment> \<open>the counts and lists the \<open>catch\<close> block sets; the fields it leaves out are \<open>undefined\<close>\<close>
  "navFailedStats =
     \<lparr>total' = 0, loaded = 0, failed = 0, pending = 0, failedUrls = [], pendingUrls = [],
      urls = [], hosts = [], maxResponseEnd = None, imagesOnlyMs = None, avgImageMs = None,
      sumImageMs = None, imageTimings = []\<rparr>"

definition runSingle_try ::
  "browser_env \<Rightarrow> int option \<Rightarrow> string list \<Rightarrow> int
     \<Rightarrow> nav_response option \<times> (js_error + (wait_result \<times> real option))" where
  \<comment> \<open>the \<open>try\<close> block: the navigation response seen, then the error thrown or
      \<open>(imageStats, imagesLoadedMs)\<close>\<close>
  "runSingle_try env scrollDelayMs allowedImageHosts timeoutMs =
     (case goto_result env of
        Inl err \<Rightarrow> (None, Inl err)
      | Inr navResponse \<Rightarrow>
          (case autoScroll env scrollDelayMs of
             Inl err \<Rightarrow> (navResponse, Inl err)
           | Inr scrolled \<Rightarrow>
               (case waitForImages env IGNORED_IMAGE_HOSTS allowedImageHosts timeoutMs of
                  Inl err \<Rightarrow> (navResponse, Inl err)
                | Inr (imageStats, waited) \<Rightarrow>
                    (navResponse,
                     Inr (imageStats,
                          (if imagesOnlyMs (w_stats imageStats) \<noteq> None
                           then imagesOnlyMs (w_stats imageStats)
                           else if \<not> w_timeout imageStats \<and> pending (w_stats imageStats) = 0
                           then Some (real_of_int (int (goto_ms env) + int scrolled + waited))
                           else None))))))"

definition runSingle :: "browser_env \<Rightarrow> int option \<Rightarrow> string list \<Rightarrow> int \<Rightarrow> trial_result" where
  "runSingle env scrollDelayMs allowedImageHosts timeoutMs =
     (let tried = runSingle_try env scrollDelayMs allowedImageHosts timeoutMs;
          navResponse = fst tried;
          imageStats =
            (case snd tried of
               Inl err \<Rightarrow>
                 \<lparr>w_timeout = True,
                  w_timeoutReason =
                    Some (if err_name err = ''TimeoutError'' then ''navigation_timeout''
                          else ''navigation_error''),
                  w_stats = navFailedStats\<rparr>
             | Inr (st, ms) \<Rightarrow> st);
          imagesLoadedMs = (case snd tried of Inl err \<Rightarrow> None | Inr (st, ms) \<Rightarrow> ms);
          navError =
            (case snd tried of
               Inl err \<Rightarrow> Some (if err_message err \<noteq> [] then err_message err else ''navigation_error'')
             | Inr ok \<Rightarrow> None);
          metrics = metrics_result env;
          stats = w_stats imageStats
      in \<lparr>imagesLoadedMs = map_option js_round imagesLoadedMs,
          res_avgImageMs = map_option js_round (avgImageMs stats),
          res_sumImageMs = map_option js_round (sumImageMs stats),
          timeout = w_timeout imageStats,
          timeoutReason = w_timeoutReason imageStats,
          imagesTotal = int (total' stats) - int (failed stats),
          imagesLoaded = loaded stats,
          imagesFailed = failed stats,
          imagesPending = pending stats,
          navStatus = map_option resp_status navResponse,
          navError = navError,
          navUrl = map_option resp_url navResponse,
          errorsCount = failed stats,
          userAgent = map_option m_userAgent metrics,
          viewport = map_option m_viewport metrics,
          ttfbMs = (case metrics of None \<Rightarrow> None | Some m \<Rightarrow> map_option js_round (m_ttfb m)),
          lcpMs = (case metrics of None \<Rightarrow> None | Some m \<Rightarrow> map_option js_round (m_lcp m)),
          imageUrls = urls stats,
          imageFailedUrls = failedUrls stats,
          imageHosts = hosts stats\<rparr>)"

section \<open>Records and the CSV report\<close>

record bench_record =
  timestamp_iso :: string
  page_id :: string
  variant :: string
  run_index :: int
  images_loaded_ms :: "int option"
  avg_image_ms :: "int option"
  images_total :: "int option"
  images_failed :: "int option"
  lcp_ms :: "int option"
  ttfb_ms :: "int option"
  rec_timeout :: bool
  errors_count :: "int option"
  city :: "string option"
  city_geo :: "string option"

definition cmdRun_record ::
  "string \<Rightarrow> string \<Rightarrow> string \<Rightarrow> int \<Rightarrow> trial_result \<Rightarrow> string option \<Rightarrow> string option
     \<Rightarrow> bench_record" where
  \<comment> \<open>the record \<open>cmdRun\<close> builds from the result of one trial\<close>
  "cmdRun_record now pageId variant' i runData declaredCity cityGeo =
     \<lparr>timestamp_iso = now,
      page_id = pageId,
      variant = variant',
      run_index = i,
      images_loaded_ms = imagesLoadedMs runData,
      avg_image_ms = res_avgImageMs runData,
      images_total = Some (imagesTotal runData),
      images_failed = Some (int (imagesFailed runData)),
      lcp_ms = lcpMs runData,
      ttfb_ms = ttfbMs runData,
      rec_timeout = timeout runData,
      errors_count = Some (int (errorsCount runData)),
      city = declaredCity,
      city_geo = cityGeo\<rparr>"

text \<open>
  A row is an array of cells, a string or a number, before \<open>join(",")\<close> turns it into
  text. Numbers are integers here and print in decimal; \<open>toFixed(1)\<close> prints a real with
  one decimal, rounded to the nearest tenth (a tie away from zero).
\<close>

datatype cell = Str string | Num int

function show_nat :: "nat \<Rightarrow> string" where
  "show_nat n =
     (if n < 10 then [''0123456789'' ! n]
      else show_nat (n div 10) @ [''0123456789'' ! (n mod 10)])"
  by pat_completeness auto
termination
  by (relation "measure (\<lambda>n. n)") auto

definition show_int :: "int \<Rightarrow> string" where
  "show_int i = (if i < 0 then ''-'' @ show_nat (nat (- i)) else show_nat (nat i))"

definition toFixed1 :: "real \<Rightarrow> string" where
  "toFixed1 x =
     (let a = \<bar>x\<bar>; n = nat \<lfloor>a * 10 + 1 / 2\<rfloor>
      in (if x < 0 then ''-'' else []) @ show_nat (n div 10) @ ''.'' @ show_nat (n mod 10))"

fun cell_text :: "cell \<Rightarrow> string" where
  "cell_text (Str s) = s"
| "cell_text (Num n) = show_int n"

fun join :: "string \<Rightarrow> string list \<Rightarrow> string" where
  "join sep [] = []"
| "join sep [x] = x"
| "join sep (x # y # ys) = x @ sep @ join sep (y # ys)"

definition blank :: cell where
  \<comment> \<open>the empty string \<open>""\<close>\<close>
  "blank = Str []"

definition orBlank :: "int option \<Rightarrow> cell" where
  \<comment> \<open>\<open>v ?? ""\<close>\<close>
  "orBlank v = (case v of None \<Rightarrow> blank | Some n \<Rightarrow> Num n)"

definition CSV_HEADER_columns :: "string list" where
  "CSV_HEADER_columns =
     [''timestamp'', ''page_id'', ''variant'', ''run'', ''images_ms'', ''avg_img_ms'', ''ttfb_ms'',
      ''lcp_ms'', ''images_total'', ''images_failed'', ''errors'',
      ''origin_median'', ''origin_p90'', ''origin_avg_img'', ''cdn_median'', ''cdn_p90'',
      ''cdn_avg_img'', ''improvement_%'', ''improvement_p90_%'']"

definition CSV_HEADER :: string where
  "CSV_HEADER = join '','' CSV_HEADER_columns"

definition recordToCsvRow_cells :: "bench_record \<Rightarrow> cell list" where
  "recordToCsvRow_cells record =
     [Str (timestamp_iso record),
      Str (page_id record),
      Str (variant record),
      Num (run_index record + 1),
      orBlank (images_loaded_ms record),
      orBlank (avg_image_ms record),
      orBlank (ttfb_ms record),
      orBlank (lcp_ms record),
      orBlank (images_total record),
      orBlank (images_failed record),
      orBlank (errors_count record),
      blank, blank, blank, blank, blank, blank, blank, blank]"

definition recordToCsvRow :: "bench_record \<Rightarrow> string" where
  "recordToCsvRow record = join '','' (map cell_text (recordToCsvRow_cells record))"

record summary =
  originMedian :: "int option"
  originP90 :: "int option"
  originStddev :: "int option"
  originAvgImg :: "int option"
  cdnMedian :: "int option"
  cdnP90 :: "int option"
  cdnStddev :: "int option"
  cdnAvgImg :: "int option"
  improvementMedian :: "real option"
  improvementP90 :: "real option"
  originErrors :: int
  cdnErrors :: int

definition notNull :: "int option list \<Rightarrow> real list" where
  \<comment> \<open>\<open>.filter((v) => v != null)\<close>, the values read as numbers\<close>
  "notNull vs = map (\<lambda>v. real_of_int (the v)) (filter (\<lambda>v. v \<noteq> None) vs)"

definition computeSummary :: "bench_record list \<Rightarrow> summary" where
  "computeSummary records =
     (let origin = filter (\<lambda>r. variant r = ''origin'') records;
          cdn = filter (\<lambda>r. variant r = ''cdn'') records;
          originValues = notNull (map images_loaded_ms origin);
          cdnValues = notNull (map images_loaded_ms cdn);
          originAvgImgs = notNull (map avg_image_ms origin);
          cdnAvgImgs = notNull (map avg_image_ms cdn);
          originMedian' = (if length originValues \<noteq> 0 then median originValues else None);
          originP90' = (if length originValues \<noteq> 0 then percentile originValues (9 / 10) else None);
          originStddev' = (if length originValues > 1 then stdDev originValues else None);
          originAvgImgMedian = (if length originAvgImgs \<noteq> 0 then median originAvgImgs else None);
          cdnMedian' = (if length cdnValues \<noteq> 0 then median cdnValues else None);
          cdnP90' = (if length cdnValues \<noteq> 0 then percentile cdnValues (9 / 10) else None);
          cdnStddev' = (if length cdnValues > 1 then stdDev cdnValues else None);
          cdnAvgImgMedian = (if length cdnAvgImgs \<noteq> 0 then median cdnAvgImgs else None)
      in \<lparr>originMedian = map_option js_round originMedian',
          originP90 = map_option js_round originP90',
          originStddev = map_option js_round originStddev',
          originAvgImg = map_option js_round originAvgImgMedian,
          cdnMedian = map_option js_round cdnMedian',
          cdnP90 = map_option js_round cdnP90',
          cdnStddev = map_option js_round cdnStddev',
          cdnAvgImg = map_option js_round cdnAvgImgMedian,
          improvementMedian = improvement originMedian' cdnMedian',
          improvementP90 = improvement originP90' cdnP90',
          originErrors = fold (\<lambda>r sum. sum + (case errors_count r of None \<Rightarrow> 0 | Some n \<Rightarrow> n)) origin 0,
          cdnErrors = fold (\<lambda>r sum. sum + (case errors_count r of None \<Rightarrow> 0 | Some n \<Rightarrow> n)) cdn 0\<rparr>)"

definition summaryToCsvRow_cells :: "summary \<Rightarrow> string \<Rightarrow> cell list" where
  "summaryToCsvRow_cells summary timestamp =
     [Str timestamp,
      Str ''TOTAL'',
      Str ''-'',
      Str ''-'',
      blank, blank, blank, blank, blank, blank, blank,
      orBlank (originMedian summary),
      orBlank (originP90 summary),
      orBlank (originAvgImg summary),
      orBlank (cdnMedian summary),
      orBlank (cdnP90 summary),
      orBlank (cdnAvgImg summary),
      (case improvementMedian summary of None \<Rightarrow> blank | Some v \<Rightarrow> Str (toFixed1 v)),
      (case improvementP90 summary of None \<Rightarrow> blank | Some v \<Rightarrow> Str (toFixed1 v))]"

definition summaryToCsvRow :: "summary \<Rightarrow> string \<Rightarrow> string" where
  "summaryToCsvRow summary timestamp = join '','' (map cell_text (summaryToCsvRow_cells summary timestamp))"

definition saveReport :: "bench_record list \<Rightarrow> string \<Rightarrow> string list \<times> summary" where
  \<comment> \<open>the lines written to the file (joined by newlines there) and the summary returned;
      \<open>now\<close> is \<open>new Date().toISOString()\<close>\<close>
  "saveReport records now =
     (let lines = [CSV_HEADER] @ map recordToCsvRow records;
          summary = computeSummary records
      in (lines @ [summaryToCsvRow summary now], summary))"

section \<open>Example inputs\<close>

text \<open>
  Concrete pages and a browser environment, used to run the model on: a page whose one
  image failed, one whose image is still loading, one whose image has loaded with a
  resource-timing entry, and one with a loaded and a failed image.
\<close>

definition failed_page :: page where
  "failed_page =
     \<lparr>images = [\<lparr>img_currentSrc = ''https://a.example/x.png'', img_src = ''https://a.example/x.png'',
                  img_complete = True, img_naturalWidth = 0\<rparr>],
      resourceEntries = [],
      url_hostname = (\<lambda>u. Some ''a.example'')\<rparr>"

definition pending_page :: page where
  "pending_page =
     \<lparr>images = [\<lparr>img_currentSrc = ''https://a.example/x.png'', img_src = ''https://a.example/x.png'',
                  img_complete = False, img_naturalWidth = 0\<rparr>],
      resourceEntries = [],
      url_hostname = (\<lambda>u. Some ''a.example'')\<rparr>"

definition loaded_page :: page where
  "loaded_page =
     \<lparr>images = [\<lparr>img_currentSrc = ''https://a.example/x.png'', img_src = ''https://a.example/x.png'',
                  img_complete = True, img_naturalWidth = 640\<rparr>],
      resourceEntries = [\<lparr>r_name = ''https://a.example/x.png'', r_startTime = 100, r_responseStart = 130,
                          r_responseEnd = 180, r_duration = 80, r_transferSize = 2048\<rparr>],
      url_hostname = (\<lambda>u. Some ''a.example'')\<rparr>"

definition example_env :: "(js_error + nav_response option) \<Rightarrow> (nat \<Rightarrow> js_error + page) \<Rightarrow> browser_env" where
  "example_env nav pages =
     \<lparr>goto_result = nav, goto_ms = 120, scroll_result = None, scroll_ms = 300,
      page_at = pages, collect_ms = (\<lambda>k. 10),
      metrics_result = Some \<lparr>m_ttfb = Some 35, m_lcp = Some 410, m_userAgent = ''bench'',
                              m_viewport = (1280, 720)\<rparr>\<rparr>"

definition mixed_page :: page where
  "mixed_page =
     \<lparr>images = [\<lparr>img_currentSrc = ''https://a.example/x.png'', img_src = ''https://a.example/x.png'',
                  img_complete = True, img_naturalWidth = 640\<rparr>,
                 \<lparr>img_currentSrc = ''https://a.example/y.png'', img_src = ''https://a.example/y.png'',
                  img_complete = True, img_naturalWidth = 0\<rparr>],
      resourceEntries = [\<lparr>r_name = ''https://a.example/x.png'', r_startTime = 100, r_responseStart = 130,
                          r_responseEnd = 180, r_duration = 80, r_transferSize = 2048\<rparr>],
      url_hostname = (\<lambda>u. Some ''a.example'')\<rparr>"

section \<open>Properties of withRetries\<close>

lemma withRetries_loop_invocations:
  "length (invocations (fst (withRetries_loop fn T b ob le a))) \<le> nat (T + 1 - a)"
proof (induction "nat (T + 1 - a)" arbitrary: a le)
  case 0
  then have "\<not> a \<le> T" by simp
  then show ?case
    by (subst withRetries_loop.simps) (simp add: invocations_def)
next
  case (Suc m)
  then have le: "a \<le> T" and m: "m = nat (T + 1 - (a + 1))" by simp_all
  show ?case
  proof (cases "fn a T")
    case (Inr v)
    with le show ?thesis
      by (subst withRetries_loop.simps) (simp add: invocations_def)
  next
    case (Inl err)
    show ?thesis
    proof (cases "a \<ge> T")
      case True
      with le Inl show ?thesis
        by (subst withRetries_loop.simps) (simp add: invocations_def)
    next
      case False
      have "length (invocations (fst (withRetries_loop fn T b ob (Some err) (a + 1)))) \<le> nat (T + 1 - (a + 1))"
        using Suc.hyps(1)[OF m] .
      with le Inl False show ?thesis
        by (subst withRetries_loop.simps) (simp add: invocations_def Let_def)
    qed
  qed
qed

lemma withRetries_loop_trace:
  "a \<le> n \<Longrightarrow> n \<le> T \<Longrightarrow> (\<forall>k. a \<le> k \<and> k < n \<longrightarrow> fn k T = Inl (e k)) \<Longrightarrow>
   n = T \<or> (\<exists>v. fn n T = Inr v) \<Longrightarrow>
   withRetries_loop fn T b ob le a =
     (concat (map (\<lambda>k. [Invoke k T]
                        @ (if ob then [OnRetry k T (e k) (b * 2 ^ nat (k - 1))] else [])
                        @ (if b * 2 ^ nat (k - 1) > 0 then [Sleep (b * 2 ^ nat (k - 1))] else []))
                [a..n - 1])
        @ [Invoke n T],
      case fn n T of Inr v \<Rightarrow> Inr v | Inl err \<Rightarrow> Inl (Some err))"
proof (induction "nat (n - a)" arbitrary: a le)
  case 0
  then have an: "a = n" by simp
  show ?case
  proof (cases "fn n T")
    case (Inr v)
    with 0 an show ?thesis
      by (subst withRetries_loop.simps) simp
  next
    case (Inl err)
    with "0.prems" have "n = T" by auto
    with Inl an show ?thesis
      by (subst withRetries_loop.simps) simp
  qed
next
  case (Suc m)
  then have lt: "a < n" and m: "m = nat (n - (a + 1))" by simp_all
  with Suc.prems have fa: "fn a T = Inl (e a)" and aT: "a < T" by auto
  have rest: "withRetries_loop fn T b ob (Some (e a)) (a + 1) =
     (concat (map (\<lambda>k. [Invoke k T]
                        @ (if ob then [OnRetry k T (e k) (b * 2 ^ nat (k - 1))] else [])
                        @ (if b * 2 ^ nat (k - 1) > 0 then [Sleep (b * 2 ^ nat (k - 1))] else []))
                [a + 1..n - 1])
        @ [Invoke n T],
      case fn n T of Inr v \<Rightarrow> Inr v | Inl err \<Rightarrow> Inl (Some err))"
    using Suc.hyps(1)[OF m] lt Suc.prems by simp
  have up: "[a..n - 1] = a # [a + 1..n - 1]"
    using lt by (simp add: upto_rec1)
  show ?case
    by (subst withRetries_loop.simps)
       (use fa aT in \<open>simp add: rest up Let_def del: withRetries_loop.simps\<close>)
qed

text \<open>
  C5, as the function implements it. \<open>withRetries\<close> invokes the operation at most
  \<open>max(1, attempts)\<close> times. When attempts \<open>1 .. n - 1\<close> fail and attempt \<open>n\<close> succeeds or is
  the last one, the trace is, for each failed attempt \<open>k < n\<close>: the invocation, the call of
  the observer (when one was passed) with the delay \<open>backoffMs * 2^(k - 1)\<close>, and the sleep
  of that delay (when positive); then the invocation \<open>n\<close>, whose value is returned or whose
  error is thrown. In particular an operation that always fails, run with \<open>attempts = 3\<close>
  and \<open>backoffMs = 100\<close>, is invoked exactly 3 times, the observer is called exactly twice
  (after attempts 1 and 2), and the error of the third attempt is thrown.
\<close>

theorem withRetries_spec:
  "length (invocations (fst (withRetries fn attempts b ob))) \<le> nat (max 1 attempts)
   \<and> (1 \<le> n \<and> n \<le> max 1 attempts
        \<and> (\<forall>k. 1 \<le> k \<and> k < n \<longrightarrow> fn k (max 1 attempts) = Inl (e k))
        \<and> (n = max 1 attempts \<or> (\<exists>v. fn n (max 1 attempts) = Inr v))
      \<longrightarrow> withRetries fn attempts b ob =
            (concat (map (\<lambda>k. [Invoke k (max 1 attempts)]
                        @ (if ob then [OnRetry k (max 1 attempts) (e k) (b * 2 ^ nat (k - 1))] else [])
                        @ (if b * 2 ^ nat (k - 1) > 0 then [Sleep (b * 2 ^ nat (k - 1))] else []))
                [1..n - 1])
               @ [Invoke n (max 1 attempts)],
             case fn n (max 1 attempts) of Inr v \<Rightarrow> Inr v | Inl err \<Rightarrow> Inl (Some err)))
   \<and> ((\<forall>k. fn' k 3 = Inl (e' k))
      \<longrightarrow> withRetries fn' 3 100 True =
            ([Invoke 1 3, OnRetry 1 3 (e' 1) 100, Sleep 100,
              Invoke 2 3, OnRetry 2 3 (e' 2) 200, Sleep 200,
              Invoke 3 3],
             Inl (Some (e' 3)))
          \<and> length (invocations (fst (withRetries fn' 3 100 True))) = 3
          \<and> observations (fst (withRetries fn' 3 100 True))
              = [OnRetry 1 3 (e' 1) 100, OnRetry 2 3 (e' 2) 200])"
proof (intro conjI impI)
  show "length (invocations (fst (withRetries fn attempts b ob))) \<le> nat (max 1 attempts)"
    using withRetries_loop_invocations[of fn "max 1 attempts" b ob None 1]
    by (simp add: withRetries_def Let_def)
next
  assume h: "1 \<le> n \<and> n \<le> max 1 attempts
        \<and> (\<forall>k. 1 \<le> k \<and> k < n \<longrightarrow> fn k (max 1 attempts) = Inl (e k))
        \<and> (n = max 1 attempts \<or> (\<exists>v. fn n (max 1 attempts) = Inr v))"
  then show "withRetries fn attempts b ob =
            (concat (map (\<lambda>k. [Invoke k (max 1 attempts)]
                        @ (if ob then [OnRetry k (max 1 attempts) (e k) (b * 2 ^ nat (k - 1))] else [])
                        @ (if b * 2 ^ nat (k - 1) > 0 then [Sleep (b * 2 ^ nat (k - 1))] else []))
                [1..n - 1])
               @ [Invoke n (max 1 attempts)],
             case fn n (max 1 attempts) of Inr v \<Rightarrow> Inr v | Inl err \<Rightarrow> Inl (Some err))"
    unfolding withRetries_def Let_def
    by (intro withRetries_loop_trace) blast+
next
  assume all: "\<forall>k. fn' k 3 = Inl (e' k)"
  have up: "[1..(2::int)] = [1, 2]"
    by (simp add: upto_rec1)
  have run: "withRetries fn' 3 100 True =
            ([Invoke 1 3, OnRetry 1 3 (e' 1) 100, Sleep 100,
              Invoke 2 3, OnRetry 2 3 (e' 2) 200, Sleep 200,
              Invoke 3 3],
             Inl (Some (e' 3)))"
    using withRetries_loop_trace[of 1 3 3 fn' e' 100 True None] all
    by (simp add: withRetries_def Let_def up)
  show "withRetries fn' 3 100 True =
            ([Invoke 1 3, OnRetry 1 3 (e' 1) 100, Sleep 100,
              Invoke 2 3, OnRetry 2 3 (e' 2) 200, Sleep 200,
              Invoke 3 3],
             Inl (Some (e' 3)))"
    by (rule run)
  show "length (invocations (fst (withRetries fn' 3 100 True))) = 3"
    by (simp add: run invocations_def)
  show "observations (fst (withRetries fn' 3 100 True))
              = [OnRetry 1 3 (e' 1) 100, OnRetry 2 3 (e' 2) 200]"
    by (simp add: run observations_def)
qed

theorem withRetries_spec_witness:
  "withRetries (\<lambda>k t. if k < 3 then Inl ''HTTP 503'' else Inr (42::nat)) 5 2000 True =
     ([Invoke 1 5, OnRetry 1 5 ''HTTP 503'' 2000, Sleep 2000,
       Invoke 2 5, OnRetry 2 5 ''HTTP 503'' 4000, Sleep 4000,
       Invoke 3 5],
      Inr 42)
   \<and> withRetries (\<lambda>k t. Inl ''HTTP 503'' :: string + nat) 3 100 True =
     ([Invoke 1 3, OnRetry 1 3 ''HTTP 503'' 100, Sleep 100,
       Invoke 2 3, OnRetry 2 3 ''HTTP 503'' 200, Sleep 200,
       Invoke 3 3],
      Inl (Some ''HTTP 503''))"
proof -
  have up: "[1..(2::int)] = [1, 2]"
    by (simp add: upto_rec1)
  from withRetries_spec[of "\<lambda>k t. if k < 3 then Inl ''HTTP 503'' else Inr (42::nat)" 5 2000 True 3
      "\<lambda>k. ''HTTP 503''" "\<lambda>k t. Inl ''HTTP 503'' :: string + nat" "\<lambda>k. ''HTTP 503''"]
  show ?thesis
    by (simp add: up)
qed

text \<open>
  C5 as the specification words it fails for \<open>attempts = 0\<close>: the operation is still
  invoked once.
\<close>

theorem withRetries_zero_attempts_counterexample:
  "withRetries (\<lambda>k t. Inl ''HTTP 503'' :: string + nat) 0 100 True
     = ([Invoke 1 1], Inl (Some ''HTTP 503''))
   \<and> length (invocations (fst (withRetries (\<lambda>k t. Inl ''HTTP 503'' :: string + nat) 0 100 True))) = 1"
  by (simp add: withRetries_def withRetries_loop.simps[of _ 1 _ _ _ 1] invocations_def)

section \<open>Properties of the statistics module\<close>

lemma sorted_nth0_Min:
  fixes ys :: "real list"
  assumes "sorted ys" "ys \<noteq> []"
  shows "ys ! 0 = Min (set ys)"
proof -
  have "\<forall>y \<in> set ys. ys ! 0 \<le> y"
    using assms by (cases ys) auto
  moreover have "ys ! 0 \<in> set ys" using assms by simp
  ultimately show ?thesis by (simp add: Min_eqI[symmetric])
qed

lemma sorted_last_Max:
  fixes ys :: "real list"
  assumes "sorted ys" "ys \<noteq> []"
  shows "ys ! (length ys - 1) = Max (set ys)"
proof -
  have "\<forall>y \<in> set ys. y \<le> ys ! (length ys - 1)"
  proof
    fix y assume "y \<in> set ys"
    then obtain i where i: "i < length ys" "ys ! i = y" by (auto simp: in_set_conv_nth)
    then have "ys ! i \<le> ys ! (length ys - 1)"
      using assms by (intro sorted_nth_mono) auto
    with i show "y \<le> ys ! (length ys - 1)" by simp
  qed
  moreover have "ys ! (length ys - 1) \<in> set ys" using assms by simp
  ultimately show ?thesis by (simp add: Max_eqI[symmetric])
qed

lemma round_even_of_int: "round_even (real_of_int z) = z"
  by (simp add: round_even_def)

lemma to_double_eval:
  assumes "x \<noteq> 0" "2 powr real_of_int k \<le> \<bar>x\<bar>" "\<bar>x\<bar> < 2 powr real_of_int (k + 1)" "- 1022 \<le> k"
  shows "to_double x =
           real_of_int (round_even (x / 2 powr real_of_int (k - 52))) * 2 powr real_of_int (k - 52)"
proof -
  have "\<lfloor>log 2 \<bar>x\<bar>\<rfloor> = k"
    using assms by (subst floor_log_eq_powr_iff) simp_all
  moreover have "max (k - 52) (- 1074) = k - 52" using assms(4) by simp
  ultimately show ?thesis using assms(1) by (simp add: to_double_def Let_def)
qed

lemma two_powr_neg: "e \<le> 0 \<Longrightarrow> 2 powr real_of_int e = inverse (2 ^ nat (- e))"
  by (cases "e = 0") (simp_all add: powr_real_of_int)

lemma to_double_nat:
  assumes "n < 2 ^ 53"
  shows "to_double (real n) = real n"
proof (cases "n = 0")
  case True
  then show ?thesis by (simp add: to_double_def)
next
  case False
  define L where "L = \<lfloor>log 2 (real n)\<rfloor>"
  define E where "E = L - 52"
  have pos: "0 < real n" using False by simp
  have L0: "0 \<le> L" unfolding L_def using False by simp
  have "log 2 (real n) < 53"
    using log_of_power_less[of n 2 53] assms False by simp
  then have L52: "L \<le> 52" unfolding L_def by linarith
  have bounds: "2 powr real_of_int L \<le> \<bar>real n\<bar>" "\<bar>real n\<bar> < 2 powr real_of_int (L + 1)"
    using floor_log_eq_powr_iff[of "real n" 2 L] pos L_def by simp_all
  have E0: "E \<le> 0" using L52 by (simp add: E_def)
  have e: "2 powr real_of_int E = inverse (2 ^ nat (- E))"
    by (rule two_powr_neg[OF E0])
  have "real n / 2 powr real_of_int E = real_of_int (int n * 2 ^ nat (- E))"
    by (simp add: e divide_inverse)
  then have "round_even (real n / 2 powr real_of_int E) = int n * 2 ^ nat (- E)"
    by (simp only: round_even_of_int)
  then have "real_of_int (round_even (real n / 2 powr real_of_int E)) * 2 powr real_of_int E = real n"
    by (simp add: e)
  moreover have "to_double (real n) =
      real_of_int (round_even (real n / 2 powr real_of_int (L - 52))) * 2 powr real_of_int (L - 52)"
    by (rule to_double_eval) (use bounds pos L0 in simp_all)
  ultimately show ?thesis by (simp only: E_def)
qed

lemma js_mul_one_nat: "n < 2 ^ 53 \<Longrightarrow> js_mul 1 (real n) = real n"
  using to_double_nat[of n] to_double_nat[of 1] by (simp add: js_mul_def)

lemma js_mul_zero: "js_mul 0 x = 0"
  by (simp add: js_mul_def to_double_def)

lemma to_double_7_25: "to_double (7 / 25) = 5044031582654956 / 2 ^ 54"
proof -
  have "to_double (7 / 25) =
        real_of_int (round_even ((7 / 25) / 2 powr real_of_int (- 2 - 52))) * 2 powr real_of_int (- 2 - 52)"
    by (rule to_double_eval) (simp_all add: powr_neg_numeral)
  also have "2 powr real_of_int (- 2 - 52) = inverse (2 ^ 54)"
    by (simp add: powr_neg_numeral)
  also have "round_even ((7 / 25) / inverse (2 ^ 54)) = 5044031582654956"
    by (simp add: round_even_def Let_def)
  finally show ?thesis by simp
qed

lemma js_mul_7_25: "js_mul (7 / 25) 25 = 7881299347898369 / 2 ^ 50"
proof -
  have n: "to_double 25 = 25" using to_double_nat[of 25] by simp
  have "to_double (5044031582654956 / 2 ^ 54 * 25) =
        real_of_int (round_even ((5044031582654956 / 2 ^ 54 * 25) / 2 powr real_of_int (2 - 52)))
          * 2 powr real_of_int (2 - 52)"
    by (rule to_double_eval) (simp_all add: powr_neg_numeral)
  also have "2 powr real_of_int (2 - 52) = inverse (2 ^ 50)"
    by (simp add: powr_neg_numeral)
  also have "round_even ((5044031582654956 / 2 ^ 54 * 25) / inverse (2 ^ 50)) = 7881299347898369"
    by (simp add: round_even_def Let_def)
  finally show ?thesis by (simp add: js_mul_def to_double_7_25 n)
qed

lemma ceil_7_25: "\<lceil>js_mul (7 / 25) 25\<rceil> = 8"
  by (simp add: js_mul_7_25 ceiling_eq_iff)

lemma to_double_9_10: "to_double (9 / 10) = 8106479329266893 / 2 ^ 53"
proof -
  have "to_double (9 / 10) =
        real_of_int (round_even ((9 / 10) / 2 powr real_of_int (- 1 - 52))) * 2 powr real_of_int (- 1 - 52)"
    by (rule to_double_eval) (simp_all add: powr_neg_numeral powr_minus)
  also have "2 powr real_of_int (- 1 - 52) = inverse (2 ^ 53)"
    by (simp add: powr_neg_numeral)
  also have "round_even ((9 / 10) / inverse (2 ^ 53)) = 8106479329266893"
    by (simp add: round_even_def Let_def)
  finally show ?thesis by simp
qed

lemma js_mul_9_10: "js_mul (9 / 10) 10 = 9"
proof -
  have n: "to_double 10 = 10" using to_double_nat[of 10] by simp
  have "to_double (8106479329266893 / 2 ^ 53 * 10) =
        real_of_int (round_even ((8106479329266893 / 2 ^ 53 * 10) / 2 powr real_of_int (3 - 52)))
          * 2 powr real_of_int (3 - 52)"
    by (rule to_double_eval) (simp_all add: powr_neg_numeral)
  also have "2 powr real_of_int (3 - 52) = inverse (2 ^ 49)"
    by (simp add: powr_neg_numeral)
  also have "round_even ((8106479329266893 / 2 ^ 53 * 10) / inverse (2 ^ 49)) = 5066549580791808"
    by (simp add: round_even_def Let_def)
  finally show ?thesis by (simp add: js_mul_def to_double_9_10 n)
qed

text \<open>
  C7. For a non-empty list, \<open>percentile values p\<close> is the element of the ascending-sorted
  list at index \<open>ceil(p * n) - 1\<close> clamped to \<open>[0, n - 1]\<close>, whatever \<open>p\<close> is, the product
  \<open>p * n\<close> being the language's, rounded to a double; so \<open>percentile values 1\<close> is the
  maximum (for a list shorter than \<open>2^53\<close>, as every array is) and \<open>percentile values 0\<close>
  the minimum. For the empty list there is no result.
\<close>

theorem percentile_spec:
  "(vs \<noteq> [] \<longrightarrow>
      (\<forall>ys. sorted ys \<and> mset ys = mset vs \<longrightarrow>
         percentile vs p =
           Some (ys ! nat (max 0 (min (int (length vs) - 1) (\<lceil>js_mul p (real (length vs))\<rceil> - 1)))))
    \<and> (length vs < 2 ^ 53 \<longrightarrow> percentile vs 1 = Some (Max (set vs)))
    \<and> percentile vs 0 = Some (Min (set vs)))
   \<and> percentile [] p = None"
proof -
  have sorted_eq: "ys = sort vs" if "sorted ys" "mset ys = mset vs" for ys
    using that by (simp add: properties_for_sort)
  have a: "percentile vs p =
           Some (ys ! nat (max 0 (min (int (length vs) - 1) (\<lceil>js_mul p (real (length vs))\<rceil> - 1))))"
    if "vs \<noteq> []" "sorted ys" "mset ys = mset vs" for ys
    using that sorted_eq[OF that(2,3)] by (simp add: percentile_def Let_def)
  have sort_ne: "sort vs \<noteq> []" if "vs \<noteq> []"
    using that by (metis length_sort length_0_conv)
  have b: "percentile vs 1 = Some (Max (set vs))" if "vs \<noteq> []" "length vs < 2 ^ 53"
  proof -
    have "js_mul 1 (real (length (sort vs))) = real (length vs)"
      using js_mul_one_nat[OF that(2)] by simp
    then have "nat (max 0 (min (int (length (sort vs)) - 1) (\<lceil>js_mul 1 (real (length (sort vs)))\<rceil> - 1)))
                 = length (sort vs) - 1"
      by simp
    moreover have "sort vs ! (length (sort vs) - 1) = Max (set (sort vs))"
      using that sort_ne by (intro sorted_last_Max) simp_all
    ultimately show ?thesis using that(1) by (simp add: percentile_def Let_def)
  qed
  have c: "percentile vs 0 = Some (Min (set vs))" if "vs \<noteq> []"
  proof -
    have "sort vs ! 0 = Min (set (sort vs))"
      using that sort_ne by (intro sorted_nth0_Min) simp_all
    then show ?thesis using that by (simp add: percentile_def Let_def js_mul_zero)
  qed
  have d: "percentile [] p = None" by (simp add: percentile_def)
  from a b c d show ?thesis by blast
qed

text \<open>
  The theorem at two inputs where the rounding of the product decides the rank:
  \<open>0.28 * 25\<close> is just above 7 as a double, so the eighth element is returned, and
  \<open>0.9 * 10\<close> rounds to 9, so the ninth is.
\<close>

theorem percentile_spec_witness:
  "percentile [1, 2, 3, 4, 5, 6, 7, 8, 9, 10, 11, 12, 13, 14, 15, 16, 17, 18, 19, 20, 21, 22, 23, 24, 25]
     (28 / 100) = Some 8
   \<and> percentile [10, 9, 8, 7, 6, 5, 4, 3, 2, 1] (9 / 10) = Some 9
   \<and> percentile [30, 10, 20] 1 = Some 30
   \<and> percentile [30, 10, 20] 0 = Some 10"
proof -
  let ?a = "[1, 2, 3, 4, 5, 6, 7, 8, 9, 10, 11, 12, 13, 14, 15, 16, 17, 18, 19, 20, 21, 22, 23, 24, 25 :: real]"
  let ?b = "[10, 9, 8, 7, 6, 5, 4, 3, 2, 1 :: real]"
  let ?b' = "[1, 2, 3, 4, 5, 6, 7, 8, 9, 10 :: real]"
  have sa: "sorted ?a" by simp
  have sb: "sorted ?b'" by simp
  have mb: "mset ?b' = mset ?b" by simp
  have la: "real (length ?a) = 25" "int (length ?a) = 25" by simp_all
  have lb: "real (length ?b) = 10" "int (length ?b) = 10" by simp_all
  from percentile_spec[of ?a "28 / 100"] sa
  have "percentile ?a (28 / 100) = Some (?a ! nat (max 0 (min (int (length ?a) - 1)
          (\<lceil>js_mul (28 / 100) (real (length ?a))\<rceil> - 1))))"
    by blast
  then have 1: "percentile ?a (28 / 100) = Some 8"
    by (simp only: la) (simp add: ceil_7_25)
  from percentile_spec[of ?b "9 / 10"] sb mb
  have "percentile ?b (9 / 10) = Some (?b' ! nat (max 0 (min (int (length ?b) - 1)
          (\<lceil>js_mul (9 / 10) (real (length ?b))\<rceil> - 1))))"
    by blast
  then have 2: "percentile ?b (9 / 10) = Some 9"
    by (simp only: lb) (simp add: js_mul_9_10)
  from percentile_spec[of "[30, 10, 20]" 0]
  have 3: "percentile [30, 10, 20] 1 = Some 30" "percentile [30, 10, 20] 0 = Some 10" by simp_all
  from 1 2 3 show ?thesis by simp
qed

text \<open>
  C8. \<open>improvement origin cdn\<close> is \<open>(origin - cdn) / origin * 100\<close> when both inputs are
  present and \<open>origin\<close> is not zero, and no result when \<open>origin\<close> is zero or an input is
  absent; \<open>improvement(100, 50) = 50\<close>, \<open>improvement(50, 100) = -100\<close> and
  \<open>improvement(0, 50)\<close> has no result.
\<close>

theorem improvement_spec:
  "(origin \<noteq> 0 \<longrightarrow> improvement (Some origin) (Some cdn) = Some ((origin - cdn) / origin * 100))
   \<and> (originMs = None \<or> cdnMs = None \<or> originMs = Some 0 \<longrightarrow> improvement originMs cdnMs = None)
   \<and> improvement (Some 100) (Some 50) = Some 50
   \<and> improvement (Some 50) (Some 100) = Some (- 100)
   \<and> improvement (Some 0) (Some 50) = None"
  by (auto simp: improvement_def split: option.splits)

theorem improvement_spec_witness:
  "improvement (Some 200) (Some 150) = Some 25 \<and> improvement None (Some 3) = None"
  using improvement_spec[where origin = 200 and cdn = 150 and originMs = None and cdnMs = "Some 3"]
  by simp

section \<open>Properties of the timing collector\<close>

lemma fold_add_sum_list:
  "fold (\<lambda>t sum. sum + f t) xs (a::real) = a + sum_list (map f xs)"
  by (induction xs arbitrary: a) (simp_all add: add.assoc)

lemma Math_min_Min: "xs \<noteq> [] \<Longrightarrow> Math_min xs = Some (Min (set xs))"
  by (cases xs) (simp_all add: Math_min_def Min.set_eq_fold del: set_simps)

lemma Math_max_Max: "xs \<noteq> [] \<Longrightarrow> Math_max xs = Some (Max (set xs))"
  by (cases xs) (simp_all add: Math_max_def Max.set_eq_fold del: set_simps)

lemma classify_failed:
  "snd (fold (classifyImage es) data acc) =
     snd acc @ map e_src (filter (\<lambda>e. findTiming es e = None \<and> img_complete (e_img e)
                                        \<and> img_naturalWidth (e_img e) = 0) data)"
  by (induction data arbitrary: acc) (auto simp: classifyImage_def split: option.splits)

lemma classify_loaded:
  "length (fst (fold (classifyImage es) data acc)) =
     length (fst acc) + length (filter (\<lambda>e. findTiming es e \<noteq> None \<or> (img_complete (e_img e)
                                        \<and> img_naturalWidth (e_img e) > 0)) data)"
  by (induction data arbitrary: acc) (auto simp: classifyImage_def split: option.splits)

lemma classify_timed:
  "map (\<lambda>t. g (num (responseEnd t)) (num (duration t)))
       (filter (\<lambda>t. responseEnd t \<noteq> None \<and> duration t \<noteq> None) (fst (fold (classifyImage es) data acc))) =
   map (\<lambda>t. g (num (responseEnd t)) (num (duration t)))
       (filter (\<lambda>t. responseEnd t \<noteq> None \<and> duration t \<noteq> None) (fst acc))
   @ map (\<lambda>r. g (r_responseEnd r) (r_duration r))
       (map the (filter (\<lambda>x. x \<noteq> None) (map (findTiming es) data)))"
  by (induction data arbitrary: acc) (auto simp: classifyImage_def num_def split: option.splits)

lemma length_timed:
  "length (filter (\<lambda>e. findTiming es e \<noteq> None \<or> (img_complete (e_img e) \<and> img_naturalWidth (e_img e) > 0)) data)
   = length (filter (\<lambda>x. x \<noteq> None) (map (findTiming es) data))
     + length (filter (\<lambda>e. findTiming es e = None \<and> img_complete (e_img e) \<and> img_naturalWidth (e_img e) > 0) data)"
  by (induction data) auto

text \<open>
  What the loop over the qualifying images computes: \<open>failedUrls\<close> lists the images that
  have no matching resource-timing entry and completed with zero natural size, \<open>failed\<close>
  is their number, and \<open>loaded\<close> counts the images that have a matching entry or completed
  with a non-zero natural size.
\<close>

lemma collect_failed_classification:
  "failedUrls (collectImageTimings pg ignoreHosts allowHosts) =
     map e_src (filter (\<lambda>e. findTiming (resourceEntries pg) e = None \<and> img_complete (e_img e)
                               \<and> img_naturalWidth (e_img e) = 0)
                  (imgData pg ignoreHosts allowHosts))
   \<and> failed (collectImageTimings pg ignoreHosts allowHosts) =
       length (failedUrls (collectImageTimings pg ignoreHosts allowHosts))
   \<and> loaded (collectImageTimings pg ignoreHosts allowHosts) =
       length (filter (\<lambda>e. findTiming (resourceEntries pg) e \<noteq> None
                              \<or> (img_complete (e_img e) \<and> img_naturalWidth (e_img e) > 0))
                 (imgData pg ignoreHosts allowHosts))"
  by (simp add: collectImageTimings_def Let_def classify_failed classify_loaded)

text \<open>
  C1. A qualifying image that completed with zero natural size is to be classified as
  failed and never counted as loaded, also when it has a matching resource-timing entry.
  The collector does not do so at this input: one image, complete with
  \<open>naturalWidth = 0\<close>, whose URL has a resource-timing entry, is counted as loaded and not
  as failed, because the entry is looked up before the image's own state is.
\<close>

theorem collect_zero_size_with_timing_counterexample:
  "loaded (collectImageTimings
      \<lparr>images = [\<lparr>img_currentSrc = ''https://a.example/x.png'', img_src = ''https://a.example/x.png'',
                   img_complete = True, img_naturalWidth = 0\<rparr>],
       resourceEntries = [\<lparr>r_name = ''https://a.example/x.png'', r_startTime = 0, r_responseStart = 5,
                           r_responseEnd = 20, r_duration = 20, r_transferSize = 0\<rparr>],
       url_hostname = (\<lambda>u. Some ''a.example'')\<rparr> [] []) = 1
   \<and> failed (collectImageTimings
      \<lparr>images = [\<lparr>img_currentSrc = ''https://a.example/x.png'', img_src = ''https://a.example/x.png'',
                   img_complete = True, img_naturalWidth = 0\<rparr>],
       resourceEntries = [\<lparr>r_name = ''https://a.example/x.png'', r_startTime = 0, r_responseStart = 5,
                           r_responseEnd = 20, r_duration = 20, r_transferSize = 0\<rparr>],
       url_hostname = (\<lambda>u. Some ''a.example'')\<rparr> [] []) = 0
   \<and> failedUrls (collectImageTimings
      \<lparr>images = [\<lparr>img_currentSrc = ''https://a.example/x.png'', img_src = ''https://a.example/x.png'',
                   img_complete = True, img_naturalWidth = 0\<rparr>],
       resourceEntries = [\<lparr>r_name = ''https://a.example/x.png'', r_startTime = 0, r_responseStart = 5,
                           r_responseEnd = 20, r_duration = 20, r_transferSize = 0\<rparr>],
       url_hostname = (\<lambda>u. Some ''a.example'')\<rparr> [] []) = []"
  by (simp add: collectImageTimings_def imgData_def classifyImage_def findTiming_def
      allowedHost_def Let_def)

text \<open>
  C4. When at least one qualifying image has a resource-timing entry, \<open>imagesOnlyMs\<close> is
  the largest \<open>responseEnd\<close> minus the smallest \<open>responseEnd - duration\<close> over exactly the
  entries matched to qualifying images, and \<open>avgImageMs\<close> is the mean of their
  \<open>duration\<close>s. The images recorded with the no-timing placeholder (complete, non-zero
  natural size, no entry) add to \<open>loaded\<close> and to neither aggregate.
\<close>

theorem collect_aggregates:
  "(map the (filter (\<lambda>x. x \<noteq> None) (map (findTiming (resourceEntries pg)) (imgData pg ignoreHosts allowHosts))) \<noteq> []
     \<longrightarrow>
       imagesOnlyMs (collectImageTimings pg ignoreHosts allowHosts) =
         Some (Max (set (map r_responseEnd
                      (map the (filter (\<lambda>x. x \<noteq> None) (map (findTiming (resourceEntries pg)) (imgData pg ignoreHosts allowHosts))))))
               - Min (set (map (\<lambda>r. r_responseEnd r - r_duration r)
                      (map the (filter (\<lambda>x. x \<noteq> None) (map (findTiming (resourceEntries pg)) (imgData pg ignoreHosts allowHosts)))))))
     \<and> avgImageMs (collectImageTimings pg ignoreHosts allowHosts) =
         Some (sum_list (map r_duration
                      (map the (filter (\<lambda>x. x \<noteq> None) (map (findTiming (resourceEntries pg)) (imgData pg ignoreHosts allowHosts)))))
               / real (length (map the (filter (\<lambda>x. x \<noteq> None) (map (findTiming (resourceEntries pg)) (imgData pg ignoreHosts allowHosts)))))))
   \<and> loaded (collectImageTimings pg ignoreHosts allowHosts) =
       length (map the (filter (\<lambda>x. x \<noteq> None) (map (findTiming (resourceEntries pg)) (imgData pg ignoreHosts allowHosts))))
       + length (filter (\<lambda>e. findTiming (resourceEntries pg) e = None \<and> img_complete (e_img e)
                               \<and> img_naturalWidth (e_img e) > 0)
                   (imgData pg ignoreHosts allowHosts))"
proof -
  define data where "data = imgData pg ignoreHosts allowHosts"
  define es where "es = resourceEntries pg"
  define timed where "timed = map the (filter (\<lambda>x. x \<noteq> None) (map (findTiming es) data))"
  define cl where "cl = fold (classifyImage es) data ([], [])"
  define twd where "twd = filter (\<lambda>t. responseEnd t \<noteq> None \<and> duration t \<noteq> None) (fst cl)"
  have ends: "map (\<lambda>t. num (responseEnd t)) twd = map r_responseEnd timed"
    unfolding twd_def cl_def timed_def
    using classify_timed[of "\<lambda>a b. a" es data "([], [])"] by simp
  have starts: "map (\<lambda>t. num (responseEnd t) - num (duration t)) twd = map (\<lambda>r. r_responseEnd r - r_duration r) timed"
    unfolding twd_def cl_def timed_def
    using classify_timed[of "\<lambda>a b. a - b" es data "([], [])"] by simp
  have durs: "map (\<lambda>t. num (duration t)) twd = map r_duration timed"
    unfolding twd_def cl_def timed_def
    using classify_timed[of "\<lambda>a b. b" es data "([], [])"] by simp
  have len: "length twd = length timed"
    using ends by (metis length_map)
  have st: "collectImageTimings pg ignoreHosts allowHosts =
     \<lparr>total' = length data, loaded = length (fst cl), failed = length (snd cl),
      pending = length (map e_src (filter (\<lambda>e. \<not> img_complete (e_img e)) data)),
      failedUrls = snd cl,
      pendingUrls = map e_src (filter (\<lambda>e. \<not> img_complete (e_img e)) data),
      urls = map e_src data, hosts = uniq (map e_hostname data),
      maxResponseEnd = (if length twd > 0 then Math_max (map (\<lambda>t. num (responseEnd t)) twd) else None),
      imagesOnlyMs = (if length twd > 0
                      then (case (Math_max (map (\<lambda>t. num (responseEnd t)) twd),
                                  Math_min (map (\<lambda>t. num (responseEnd t) - num (duration t)) twd)) of
                              (Some e, Some s) \<Rightarrow> Some (e - s) | _ \<Rightarrow> None)
                      else None),
      avgImageMs = (if length twd > 0
                    then Some (fold (\<lambda>t sum. sum + num (duration t)) twd 0 / real (length twd)) else None),
      sumImageMs = (if length twd > 0 then Some (fold (\<lambda>t sum. sum + num (duration t)) twd 0) else None),
      imageTimings = fst cl\<rparr>"
    by (simp add: collectImageTimings_def Let_def data_def es_def cl_def twd_def)
  have agg: "imagesOnlyMs (collectImageTimings pg ignoreHosts allowHosts) =
         Some (Max (set (map r_responseEnd timed)) - Min (set (map (\<lambda>r. r_responseEnd r - r_duration r) timed)))
     \<and> avgImageMs (collectImageTimings pg ignoreHosts allowHosts) =
         Some (sum_list (map r_duration timed) / real (length timed))" if ne: "timed \<noteq> []"
  proof -
    have pos: "length twd > 0" "length timed > 0" using ne len by simp_all
    have mx: "Math_max (map (\<lambda>t. num (responseEnd t)) twd) = Some (Max (set (map r_responseEnd timed)))"
      using ne by (simp only: ends) (rule Math_max_Max, simp)
    have mn: "Math_min (map (\<lambda>t. num (responseEnd t) - num (duration t)) twd)
                = Some (Min (set (map (\<lambda>r. r_responseEnd r - r_duration r) timed)))"
      using ne by (simp only: starts) (rule Math_min_Min, simp)
    have sm: "fold (\<lambda>t sum. sum + num (duration t)) twd 0 = sum_list (map r_duration timed)"
      by (simp add: fold_add_sum_list durs)
    show ?thesis
      by (simp only: st image_stats.simps pos if_True mx mn sm len prod.case option.case)
  qed
  have ld: "loaded (collectImageTimings pg ignoreHosts allowHosts) =
       length timed + length (filter (\<lambda>e. findTiming es e = None \<and> img_complete (e_img e)
                               \<and> img_naturalWidth (e_img e) > 0) data)"
  proof -
    have "loaded (collectImageTimings pg ignoreHosts allowHosts) = length (fst cl)"
      by (simp only: st image_stats.simps)
    also have "\<dots> = length (filter (\<lambda>e. findTiming es e \<noteq> None \<or> (img_complete (e_img e)
                                        \<and> img_naturalWidth (e_img e) > 0)) data)"
      unfolding cl_def by (simp only: classify_loaded) simp
    also have "\<dots> = length (filter (\<lambda>x. x \<noteq> None) (map (findTiming es) data))
        + length (filter (\<lambda>e. findTiming es e = None \<and> img_complete (e_img e)
                               \<and> img_naturalWidth (e_img e) > 0) data)"
      by (rule length_timed)
    also have "length (filter (\<lambda>x. x \<noteq> None) (map (findTiming es) data)) = length timed"
      unfolding timed_def by (simp only: length_map)
    finally show ?thesis .
  qed
  from agg ld show ?thesis
    unfolding timed_def data_def es_def by blast
qed

theorem collect_aggregates_witness:
  "imagesOnlyMs (collectImageTimings
      \<lparr>images = [\<lparr>img_currentSrc = ''u1'', img_src = ''u1'', img_complete = True, img_naturalWidth = 10\<rparr>,
                  \<lparr>img_currentSrc = ''u2'', img_src = ''u2'', img_complete = True, img_naturalWidth = 10\<rparr>,
                  \<lparr>img_currentSrc = ''u3'', img_src = ''u3'', img_complete = True, img_naturalWidth = 10\<rparr>],
       resourceEntries =
         [\<lparr>r_name = ''u1'', r_startTime = 100, r_responseStart = 110, r_responseEnd = 150,
           r_duration = 50, r_transferSize = 0\<rparr>,
          \<lparr>r_name = ''u2'', r_startTime = 120, r_responseStart = 130, r_responseEnd = 200,
           r_duration = 80, r_transferSize = 0\<rparr>],
       url_hostname = (\<lambda>u. Some ''a.example'')\<rparr> [] []) = Some 100
   \<and> avgImageMs (collectImageTimings
      \<lparr>images = [\<lparr>img_currentSrc = ''u1'', img_src = ''u1'', img_complete = True, img_naturalWidth = 10\<rparr>,
                  \<lparr>img_currentSrc = ''u2'', img_src = ''u2'', img_complete = True, img_naturalWidth = 10\<rparr>,
                  \<lparr>img_currentSrc = ''u3'', img_src = ''u3'', img_complete = True, img_naturalWidth = 10\<rparr>],
       resourceEntries =
         [\<lparr>r_name = ''u1'', r_startTime = 100, r_responseStart = 110, r_responseEnd = 150,
           r_duration = 50, r_transferSize = 0\<rparr>,
          \<lparr>r_name = ''u2'', r_startTime = 120, r_responseStart = 130, r_responseEnd = 200,
           r_duration = 80, r_transferSize = 0\<rparr>],
       url_hostname = (\<lambda>u. Some ''a.example'')\<rparr> [] []) = Some 65
   \<and> loaded (collectImageTimings
      \<lparr>images = [\<lparr>img_currentSrc = ''u1'', img_src = ''u1'', img_complete = True, img_naturalWidth = 10\<rparr>,
                  \<lparr>img_currentSrc = ''u2'', img_src = ''u2'', img_complete = True, img_naturalWidth = 10\<rparr>,
                  \<lparr>img_currentSrc = ''u3'', img_src = ''u3'', img_complete = True, img_naturalWidth = 10\<rparr>],
       resourceEntries =
         [\<lparr>r_name = ''u1'', r_startTime = 100, r_responseStart = 110, r_responseEnd = 150,
           r_duration = 50, r_transferSize = 0\<rparr>,
          \<lparr>r_name = ''u2'', r_startTime = 120, r_responseStart = 130, r_responseEnd = 200,
           r_duration = 80, r_transferSize = 0\<rparr>],
       url_hostname = (\<lambda>u. Some ''a.example'')\<rparr> [] []) = 3"
  using collect_aggregates
     [of "\<lparr>images = [\<lparr>img_currentSrc = ''u1'', img_src = ''u1'', img_complete = True, img_naturalWidth = 10\<rparr>,
                  \<lparr>img_currentSrc = ''u2'', img_src = ''u2'', img_complete = True, img_naturalWidth = 10\<rparr>,
                  \<lparr>img_currentSrc = ''u3'', img_src = ''u3'', img_complete = True, img_naturalWidth = 10\<rparr>],
       resourceEntries =
         [\<lparr>r_name = ''u1'', r_startTime = 100, r_responseStart = 110, r_responseEnd = 150,
           r_duration = 50, r_transferSize = 0\<rparr>,
          \<lparr>r_name = ''u2'', r_startTime = 120, r_responseStart = 130, r_responseEnd = 200,
           r_duration = 80, r_transferSize = 0\<rparr>],
       url_hostname = (\<lambda>u. Some ''a.example'')\<rparr>" "[]" "[]"]
  by (simp add: imgData_def findTiming_def allowedHost_def Let_def)

section \<open>Properties of host matching\<close>

declare indexOf.simps [simp del]

lemma indexOf_Some:
  "indexOf h p i = Some k \<Longrightarrow> i \<le> k \<and> k + length p \<le> length h \<and> take (length p) (drop k h) = p"
proof (induction h p i rule: indexOf.induct)
  case (1 host part index)
  show ?case
  proof (cases "index + length part > length host")
    case True
    with "1.prems" show ?thesis by (simp add: indexOf.simps[of host part index])
  next
    case False
    show ?thesis
    proof (cases "take (length part) (drop index host) = part")
      case True
      with False "1.prems" show ?thesis by (simp add: indexOf.simps[of host part index])
    next
      case ne: False
      with False "1.prems" have "indexOf host part (Suc index) = Some k"
        by (simp add: indexOf.simps[of host part index])
      from "1.IH"[OF False ne this] show ?thesis by simp
    qed
  qed
qed

lemma indexOf_first:
  "i \<le> k \<Longrightarrow> k + length p \<le> length h \<Longrightarrow> take (length p) (drop k h) = p \<Longrightarrow>
   \<exists>k'. indexOf h p i = Some k' \<and> k' \<le> k"
proof (induction h p i rule: indexOf.induct)
  case (1 host part index)
  from "1.prems" have inb: "\<not> index + length part > length host" by simp
  show ?case
  proof (cases "take (length part) (drop index host) = part")
    case True
    with inb "1.prems" show ?thesis by (simp add: indexOf.simps[of host part index])
  next
    case ne: False
    with "1.prems" have "index \<noteq> k" by auto
    with "1.prems" have "Suc index \<le> k" by simp
    from "1.IH"[OF inb ne this "1.prems"(2,3)]
    obtain k' where "indexOf host part (Suc index) = Some k'" "k' \<le> k" by blast
    with inb ne show ?thesis by (simp add: indexOf.simps[of host part index])
  qed
qed

lemma indexOf_None:
  "indexOf h p i = None \<Longrightarrow> i \<le> k \<Longrightarrow> k + length p \<le> length h \<Longrightarrow> take (length p) (drop k h) \<noteq> p"
  using indexOf_first[of i k p h] by auto

lemma indexOf_shift:
  assumes "i \<le> length h"
  shows "indexOf h p i = map_option (\<lambda>j. i + j) (indexOf (drop i h) p 0)"
proof (cases "indexOf (drop i h) p 0")
  case None
  show ?thesis
  proof (cases "indexOf h p i")
    case inner: None
    with None show ?thesis by simp
  next
    case (Some k)
    from indexOf_Some[OF Some]
    have k: "i \<le> k" "k + length p \<le> length h" "take (length p) (drop k h) = p" by simp_all
    have "take (length p) (drop (k - i) (drop i h)) = p" using k by simp
    moreover have "(k - i) + length p \<le> length (drop i h)" using k by simp
    ultimately have False using indexOf_None[OF None, of "k - i"] by simp
    then show ?thesis ..
  qed
next
  case (Some j)
  from indexOf_Some[OF Some]
  have j: "j + length p \<le> length (drop i h)" "take (length p) (drop j (drop i h)) = p" by simp_all
  have occ: "(i + j) + length p \<le> length h" "take (length p) (drop (i + j) h) = p"
    using j assms by (simp_all add: add.commute)
  from indexOf_first[of i "i + j" p h] occ
  obtain k' where k': "indexOf h p i = Some k'" "k' \<le> i + j" by auto
  from indexOf_Some[OF k'(1)]
  have kk: "i \<le> k'" "k' + length p \<le> length h" "take (length p) (drop k' h) = p" by simp_all
  have "take (length p) (drop (k' - i) (drop i h)) = p" using kk by simp
  moreover have "(k' - i) + length p \<le> length (drop i h)" using kk by simp
  ultimately obtain j' where j': "indexOf (drop i h) p 0 = Some j'" "j' \<le> k' - i"
    using indexOf_first[of 0 "k' - i" p "drop i h"] by auto
  with Some have "j \<le> k' - i" by simp
  with k' kk have "k' = i + j" by simp
  with k' Some show ?thesis by simp
qed

lemma scanParts_shift:
  "i \<le> length h \<Longrightarrow> scanParts h parts i = scanParts (drop i h) parts 0"
proof (induction parts arbitrary: h i)
  case Nil
  show ?case by simp
next
  case (Cons p ps)
  show ?case
  proof (cases "indexOf (drop i h) p 0")
    case None
    then show ?thesis using indexOf_shift[OF Cons.prems, of p] by simp
  next
    case (Some j)
    from indexOf_Some[OF Some] have j: "j + length p \<le> length (drop i h)" by simp
    then have b1: "i + j + length p \<le> length h" using Cons.prems by simp
    have b2: "j + length p \<le> length (drop i h)" using j .
    have "scanParts h (p # ps) i = scanParts h ps (i + j + length p)"
      using indexOf_shift[OF Cons.prems, of p] Some by simp
    also have "\<dots> = scanParts (drop (i + j + length p) h) ps 0"
      by (rule Cons.IH[OF b1])
    also have "drop (i + j + length p) h = drop (j + length p) (drop i h)"
      by (simp add: add.commute add.left_commute)
    also have "scanParts (drop (j + length p) (drop i h)) ps 0 = scanParts (drop i h) ps (j + length p)"
      by (rule Cons.IH[OF b2, symmetric])
    also have "\<dots> = scanParts (drop i h) (p # ps) 0"
      using Some by simp
    finally show ?thesis .
  qed
qed

lemma scanParts_mono:
  "k \<le> length h \<Longrightarrow> scanParts (drop k h) parts 0 \<Longrightarrow> scanParts h parts 0"
proof (induction parts arbitrary: h k)
  case Nil
  show ?case by simp
next
  case (Cons p ps)
  from Cons.prems(2) obtain j where j: "indexOf (drop k h) p 0 = Some j"
    and rest: "scanParts (drop k h) ps (j + length p)"
    by (auto split: option.splits)
  from indexOf_Some[OF j]
  have occ': "j + length p \<le> length (drop k h)" "take (length p) (drop j (drop k h)) = p" by simp_all
  have occ: "(k + j) + length p \<le> length h" "take (length p) (drop (k + j) h) = p"
    using occ' Cons.prems(1) by (simp_all add: add.commute)
  from indexOf_first[of 0 "k + j" p h] occ
  obtain j0 where j0: "indexOf h p 0 = Some j0" "j0 \<le> k + j" by auto
  from indexOf_Some[OF j0(1)] have j0b: "j0 + length p \<le> length h" by simp
  have "scanParts (drop (j + length p) (drop k h)) ps 0"
    using rest scanParts_shift[OF occ'(1), of ps] by simp
  then have "scanParts (drop (k + j - j0) (drop (j0 + length p) h)) ps 0"
    using j0(2) by (simp add: add.commute add.left_commute)
  moreover have "k + j - j0 \<le> length (drop (j0 + length p) h)"
    using occ(1) j0(2) by simp
  ultimately have "scanParts (drop (j0 + length p) h) ps 0"
    by (rule Cons.IH[rotated])
  then have "scanParts h ps (j0 + length p)"
    using scanParts_shift[OF j0b, of ps] by simp
  with j0 show ?case by simp
qed

lemma scanParts_last_fits:
  "scanParts h parts i \<Longrightarrow> parts \<noteq> [] \<Longrightarrow> i + length (last parts) \<le> length h"
proof (induction parts arbitrary: i)
  case Nil
  then show ?case by simp
next
  case (Cons p ps)
  from Cons.prems(1) obtain f where f: "indexOf h p i = Some f" and rest: "scanParts h ps (f + length p)"
    by (auto split: option.splits)
  from indexOf_Some[OF f] have fb: "i \<le> f" "f + length p \<le> length h" by simp_all
  show ?case
  proof (cases "ps = []")
    case True
    with fb show ?thesis by simp
  next
    case False
    from Cons.IH[OF rest False] have "f + length p + length (last ps) \<le> length h" .
    with fb False show ?thesis by simp
  qed
qed

lemma endsWith_drop:
  assumes "endsWith (drop j h) l"
  shows "endsWith h l"
proof (cases "j \<le> length h")
  case True
  from assms have len: "length l \<le> length h - j"
    and eq: "drop (length h - j - length l) (drop j h) = l"
    by (simp_all add: endsWith_def)
  have "length h - j - length l + j = length h - length l"
    using True len by simp
  with eq have "drop (length h - length l) h = l"
    by (simp add: add.commute)
  with len show ?thesis by (simp add: endsWith_def)
next
  case False
  with assms have "l = []" by (simp add: endsWith_def)
  then show ?thesis by (simp add: endsWith_def)
qed

lemma endsWith_into_drop:
  "endsWith h l \<Longrightarrow> j + length l \<le> length h \<Longrightarrow> endsWith (drop j h) l"
  by (auto simp: endsWith_def)

lemma endsWith_scan:
  assumes "endsWith h l"
  shows "scanParts h [l] 0"
proof -
  from assms have "length h - length l + length l \<le> length h"
    "take (length l) (drop (length h - length l) h) = l"
    by (auto simp: endsWith_def)
  from indexOf_first[OF _ this, of 0] obtain k where "indexOf h l 0 = Some k" by auto
  then show ?thesis by simp
qed

lemma split_not_Nil: "split c p \<noteq> []"
  by (cases p) (auto split: list.splits)

lemma split_no_sep: "c \<notin> set p \<Longrightarrow> split c p = [p]"
  by (induction p) auto

lemma split_single: "split c p = [s] \<Longrightarrow> c \<notin> set p \<and> s = p"
proof (induction p arbitrary: s)
  case Nil
  then show ?case by simp
next
  case (Cons x xs)
  show ?case
  proof (cases "x = c")
    case True
    with Cons.prems show ?thesis by (simp add: split_not_Nil)
  next
    case False
    obtain t ts where sp: "split c xs = t # ts"
      using split_not_Nil[of c xs] by (cases "split c xs") auto
    with False Cons.prems have "ts = []" "s = x # t" by simp_all
    with sp Cons.IH[of t] False show ?thesis by simp
  qed
qed

lemma split_sep_two: "c \<in> set p \<Longrightarrow> \<exists>s t ss. split c p = s # t # ss"
proof -
  assume c: "c \<in> set p"
  obtain s rest where sp: "split c p = s # rest"
    using split_not_Nil[of c p] by (cases "split c p") auto
  have "rest \<noteq> []"
  proof
    assume "rest = []"
    with sp split_single[of c p s] c show False by simp
  qed
  then obtain t ss where "rest = t # ss" by (cases rest) auto
  with sp show ?thesis by blast
qed

lemma split_hd: "p \<noteq> [] \<Longrightarrow> hd (split c p) = [] \<longleftrightarrow> hd p = c"
  by (cases p) (auto split: list.splits)

lemma split_last: "last (split c p) = [] \<longleftrightarrow> p = [] \<or> last p = c"
proof (induction p)
  case Nil
  show ?case by simp
next
  case (Cons x xs)
  obtain s ss where sp: "split c xs = s # ss"
    using split_not_Nil[of c xs] by (cases "split c xs") auto
  show ?case
  proof (cases "x = c")
    case True
    with Cons.IH sp show ?thesis by auto
  next
    case False
    show ?thesis
    proof (cases "ss = []")
      case True
      with sp split_single[of c xs s] have "c \<notin> set xs" by simp
      then have "xs \<noteq> [] \<Longrightarrow> last xs \<noteq> c" by (metis last_in_set)
      with False sp True show ?thesis by auto
    next
      case ne: False
      with sp have "xs \<noteq> []" by auto
      with False sp ne Cons.IH show ?thesis by auto
    qed
  qed
qed

lemma list_ex_upto: "list_ex P [0..<Suc n] \<longleftrightarrow> (\<exists>k \<le> n. P k)"
  by (simp only: list_ex_iff set_upt Bex_def atLeastLessThan_iff less_Suc_eq_le) simp

lemma startsWith_Cons: "startsWith (d # h) (c # s) \<longleftrightarrow> d = c \<and> startsWith h s"
  by (simp add: startsWith_def)

lemma startsWith_Nil_Cons: "\<not> startsWith [] (c # s)"
  by (simp add: startsWith_def)

lemma startsWith_length:
  assumes "startsWith h s"
  shows "length s \<le> length h"
proof -
  from assms have "length (take (length s) h) = length s"
    by (simp only: startsWith_def)
  then show ?thesis by simp
qed

lemma endsWith_iff_drop: "endsWith h l \<longleftrightarrow> (\<exists>k \<le> length h. drop k h = l)"
proof
  assume "endsWith h l"
  then have "length h - length l \<le> length h \<and> drop (length h - length l) h = l"
    by (simp add: endsWith_def)
  then show "\<exists>k \<le> length h. drop k h = l" ..
next
  assume "\<exists>k \<le> length h. drop k h = l"
  then obtain k where k: "k \<le> length h" "drop k h = l" by blast
  then have "length l = length h - k" by auto
  with k show "endsWith h l" by (simp add: endsWith_def)
qed

lemma wildcard_match_star:
  "wildcard_match (CHR ''*'' # p) h \<longleftrightarrow> (\<exists>k \<le> length h. wildcard_match p (drop k h))"
  by (simp add: list_ex_upto del: upt_Suc)

lemma wildcard_match_char:
  "c \<noteq> CHR ''*'' \<Longrightarrow> wildcard_match (c # p) h \<longleftrightarrow> (\<exists>h'. h = c # h' \<and> wildcard_match p h')"
  by (cases h) (auto simp del: upt_Suc)

lemma anchored_match_Cons:
  "anchored_match ((c # s) # ss) h \<longleftrightarrow> (\<exists>h'. h = c # h' \<and> anchored_match (s # ss) h')"
proof (cases ss)
  case Nil
  show ?thesis unfolding Nil by (cases h) auto
next
  case (Cons t ts)
  show ?thesis unfolding Cons
    by (cases h) (simp_all add: startsWith_Cons startsWith_Nil_Cons)
qed

lemma startsWith_occurs:
  "k \<le> length h \<Longrightarrow>
   startsWith (drop k h) l \<longleftrightarrow> k + length l \<le> length h \<and> take (length l) (drop k h) = l"
proof
  assume k: "k \<le> length h" and sw: "startsWith (drop k h) l"
  from startsWith_length[OF sw] k have "k + length l \<le> length h" by simp
  with sw show "k + length l \<le> length h \<and> take (length l) (drop k h) = l"
    by (simp add: startsWith_def)
next
  assume "k + length l \<le> length h \<and> take (length l) (drop k h) = l"
  then show "startsWith (drop k h) l" by (simp add: startsWith_def)
qed

lemma free_match_of_anchored:
  "(\<exists>k \<le> length h. anchored_match (l # ss) (drop k h)) \<longleftrightarrow> free_match (l # ss) h"
  if "ss = [] \<or> l \<noteq> []"
proof (cases ss)
  case Nil
  show ?thesis unfolding Nil by (simp add: endsWith_iff_drop)
next
  case (Cons t ts)
  have "(\<exists>k \<le> length h. anchored_match (l # t # ts) (drop k h)) \<longleftrightarrow>
        (\<exists>k \<le> length h. startsWith (drop k h) l \<and> free_match (t # ts) (drop (k + length l) h))"
    by (simp add: add.commute)
  also have "\<dots> \<longleftrightarrow> (\<exists>k \<le> length h. k + length l \<le> length h \<and> take (length l) (drop k h) = l
                \<and> free_match (t # ts) (drop (k + length l) h))" (is "?L \<longleftrightarrow> ?R")
  proof
    assume ?L
    then obtain k where k: "k \<le> length h" "startsWith (drop k h) l"
      "free_match (t # ts) (drop (k + length l) h)" by blast
    from k(1,2) have "k + length l \<le> length h \<and> take (length l) (drop k h) = l"
      by (simp only: startsWith_occurs)
    with k show ?R by blast
  next
    assume ?R
    then obtain k where k: "k \<le> length h" "k + length l \<le> length h \<and> take (length l) (drop k h) = l"
      "free_match (t # ts) (drop (k + length l) h)" by blast
    from k(1,2) have "startsWith (drop k h) l"
      by (simp only: startsWith_occurs)
    with k show ?L by blast
  qed
  finally show ?thesis unfolding Cons free_match.simps .
qed

lemma wildcard_pieces:
  "(wildcard_match p h \<longleftrightarrow> anchored_match (split CHR ''*'' p) h)
   \<and> ((\<exists>k \<le> length h. wildcard_match p (drop k h)) \<longleftrightarrow> free_match (split CHR ''*'' p) h)"
proof (induction p arbitrary: h)
  case Nil
  have "\<exists>k \<le> length h. drop k h = []" by (intro exI[of _ "length h"]) simp
  then show ?case by (simp add: endsWith_def)
next
  case (Cons c p)
  obtain s ss where sp: "split CHR ''*'' p = s # ss"
    using split_not_Nil[of "CHR ''*''" p] by (cases "split CHR ''*'' p") auto
  have ih1: "wildcard_match p x \<longleftrightarrow> anchored_match (s # ss) x" for x
    using Cons.IH[of x] unfolding sp by blast
  have ih2: "(\<exists>k \<le> length x. wildcard_match p (drop k x)) \<longleftrightarrow> free_match (s # ss) x" for x
    using Cons.IH[of x] unfolding sp by blast
  show ?case
  proof (cases "c = CHR ''*''")
    case True
    have spc: "split CHR ''*'' (c # p) = [] # s # ss" using sp True by simp
    have c1: "wildcard_match (c # p) x \<longleftrightarrow> free_match (s # ss) x" for x
      unfolding True wildcard_match_star by (rule ih2)
    have a: "anchored_match ([] # s # ss) h \<longleftrightarrow> free_match (s # ss) h"
      by (simp add: startsWith_def)
    have f: "free_match ([] # s # ss) h \<longleftrightarrow> (\<exists>k \<le> length h. free_match (s # ss) (drop k h))"
      by simp
    show ?thesis
      unfolding spc a f by (simp only: c1)
  next
    case False
    have spc: "split CHR ''*'' (c # p) = (c # s) # ss" using sp False by simp
    have c1: "wildcard_match (c # p) x \<longleftrightarrow> anchored_match ((c # s) # ss) x" for x
      by (simp only: wildcard_match_char[OF False] ih1 anchored_match_Cons)
    have c2: "(\<exists>k \<le> length h. wildcard_match (c # p) (drop k h)) \<longleftrightarrow> free_match ((c # s) # ss) h"
      unfolding c1 by (rule free_match_of_anchored) simp
    show ?thesis
      unfolding spc using c1[of h] c2 by (rule conjI)
  qed
qed

lemma last_filter_keep:
  "xs \<noteq> [] \<Longrightarrow> P (last xs) \<Longrightarrow> last (filter P xs) = last xs"
proof (induction xs)
  case Nil
  then show ?case by simp
next
  case (Cons x xs)
  show ?case
  proof (cases "xs = []")
    case True
    with Cons.prems show ?thesis by simp
  next
    case False
    with Cons.prems have P: "P (last xs)" by simp
    from False have "last xs \<in> set xs" by simp
    with P have "filter P xs \<noteq> []" by (simp only: filter_empty_conv) blast
    with Cons.IH[OF False P] False show ?thesis by simp
  qed
qed

lemma last_filter_nonempty:
  assumes "xs \<noteq> []" "last xs \<noteq> []"
  shows "filter (\<lambda>s. s \<noteq> []) xs \<noteq> [] \<and> last (filter (\<lambda>s. s \<noteq> []) xs) = last xs"
proof -
  from assms have "last xs \<in> set xs" by simp
  with assms(2) have "filter (\<lambda>s. s \<noteq> []) xs \<noteq> []"
    by (simp only: filter_empty_conv) blast
  moreover have "last (filter (\<lambda>s. s \<noteq> []) xs) = last xs"
    using assms by (intro last_filter_keep)
  ultimately show ?thesis ..
qed

lemma free_match_scan:
  "pieces \<noteq> [] \<Longrightarrow>
   free_match pieces h \<longleftrightarrow>
     scanParts h (filter (\<lambda>s. s \<noteq> []) pieces) 0 \<and> (last pieces \<noteq> [] \<longrightarrow> endsWith h (last pieces))"
proof (induction pieces arbitrary: h)
  case Nil
  then show ?case by simp
next
  case (Cons s rest)
  show ?case
  proof (cases rest)
    case Nil
    show ?thesis
    proof (cases "s = []")
      case True
      then show ?thesis unfolding Nil by (simp add: endsWith_def)
    next
      case False
      then show ?thesis unfolding Nil using endsWith_scan[of h s] by auto
    qed
  next
    case (Cons t ss)
    define parts' where "parts' = filter (\<lambda>s. s \<noteq> []) rest"
    define L where "L = last rest"
    have rest_ne: "rest \<noteq> []" using Cons by simp
    have ih: "free_match rest x \<longleftrightarrow> scanParts x parts' 0 \<and> (L \<noteq> [] \<longrightarrow> endsWith x L)" for x
      unfolding parts'_def L_def by (rule Cons.IH[OF rest_ne])
    have lastL: "last (s # rest) = L" using rest_ne by (simp add: L_def)
    have fm: "free_match (s # rest) h \<longleftrightarrow>
        (\<exists>k \<le> length h. k + length s \<le> length h \<and> take (length s) (drop k h) = s
            \<and> free_match rest (drop (k + length s) h))"
      unfolding Cons by simp
    have Lparts: "parts' \<noteq> [] \<and> last parts' = L" if "L \<noteq> []"
      using last_filter_nonempty[OF rest_ne] that unfolding parts'_def L_def by simp
    show ?thesis
    proof
      assume "free_match (s # rest) h"
      with fm obtain k where k: "k \<le> length h" "k + length s \<le> length h"
        "take (length s) (drop k h) = s" and fr: "free_match rest (drop (k + length s) h)"
        by blast
      from fr ih have sc: "scanParts (drop (k + length s) h) parts' 0"
        and en: "L \<noteq> [] \<longrightarrow> endsWith (drop (k + length s) h) L" by simp_all
      have ends: "last (s # rest) \<noteq> [] \<longrightarrow> endsWith h (last (s # rest))"
        unfolding lastL using en endsWith_drop by blast
      have scan: "scanParts h (filter (\<lambda>s. s \<noteq> []) (s # rest)) 0"
      proof (cases "s = []")
        case True
        from scanParts_mono[OF k(2) sc] show ?thesis
          using True by (simp add: parts'_def)
      next
        case False
        from indexOf_first[of 0 k s h] k obtain k0 where k0: "indexOf h s 0 = Some k0" "k0 \<le> k"
          by auto
        from indexOf_Some[OF k0(1)] have k0b: "k0 + length s \<le> length h" by simp
        have "drop (k + length s) h = drop (k - k0) (drop (k0 + length s) h)"
          using k0(2) by simp
        with sc have "scanParts (drop (k - k0) (drop (k0 + length s) h)) parts' 0" by simp
        moreover have "k - k0 \<le> length (drop (k0 + length s) h)" using k(2) k0(2) by simp
        ultimately have "scanParts (drop (k0 + length s) h) parts' 0"
          by (rule scanParts_mono[rotated])
        then have "scanParts h parts' (k0 + length s)"
          by (simp only: scanParts_shift[OF k0b])
        with k0 False show ?thesis by (simp add: parts'_def)
      qed
      from scan ends show "scanParts h (filter (\<lambda>s. s \<noteq> []) (s # rest)) 0
          \<and> (last (s # rest) \<noteq> [] \<longrightarrow> endsWith h (last (s # rest)))" ..
    next
      assume a: "scanParts h (filter (\<lambda>s. s \<noteq> []) (s # rest)) 0
          \<and> (last (s # rest) \<noteq> [] \<longrightarrow> endsWith h (last (s # rest)))"
      then have ends: "L \<noteq> [] \<longrightarrow> endsWith h L" unfolding lastL by simp
      show "free_match (s # rest) h"
      proof (cases "s = []")
        case True
        with a have "scanParts h parts' 0" by (simp add: parts'_def)
        with ends ih[of h] have "free_match rest h" by simp
        then have "0 \<le> length h \<and> 0 + length s \<le> length h \<and> take (length s) (drop 0 h) = s
            \<and> free_match rest (drop (0 + length s) h)"
          using True by simp
        then show ?thesis unfolding fm by blast
      next
        case False
        with a obtain k0 where k0: "indexOf h s 0 = Some k0" and sc: "scanParts h parts' (k0 + length s)"
          by (auto simp: parts'_def split: option.splits)
        from indexOf_Some[OF k0] have occ: "k0 + length s \<le> length h" "take (length s) (drop k0 h) = s"
          by simp_all
        have sc': "scanParts (drop (k0 + length s) h) parts' 0"
          using sc by (simp only: scanParts_shift[OF occ(1)])
        have en': "L \<noteq> [] \<longrightarrow> endsWith (drop (k0 + length s) h) L"
        proof
          assume L: "L \<noteq> []"
          from Lparts[OF L] scanParts_last_fits[OF sc] have "k0 + length s + length L \<le> length h" by simp
          with ends L show "endsWith (drop (k0 + length s) h) L"
            by (intro endsWith_into_drop) simp_all
        qed
        from sc' en' ih have "free_match rest (drop (k0 + length s) h)" by simp
        with occ have "k0 \<le> length h \<and> k0 + length s \<le> length h \<and> take (length s) (drop k0 h) = s
            \<and> free_match rest (drop (k0 + length s) h)"
          by simp
        then show ?thesis unfolding fm by blast
      qed
    qed
  qed
qed

lemma startsWith_star: "p \<noteq> [] \<Longrightarrow> startsWith p ''*'' \<longleftrightarrow> hd p = CHR ''*''"
  by (cases p) (simp_all add: startsWith_def)

lemma endsWith_star: "p \<noteq> [] \<Longrightarrow> endsWith p ''*'' \<longleftrightarrow> last p = CHR ''*''"
proof (cases p rule: rev_cases)
  case Nil
  assume "p \<noteq> []"
  with Nil show ?thesis by simp
next
  case (snoc ys y)
  then show ?thesis by (simp add: endsWith_def)
qed

lemma indexOf_startsWith: "startsWith h s \<Longrightarrow> indexOf h s 0 = Some 0"
  using startsWith_length[of h s] by (simp add: indexOf.simps[of h s 0] startsWith_def)

lemma matchHost_wildcard:
  assumes h: "host \<noteq> []" and p: "pattern \<noteq> []"
  shows "matchHost host pattern \<longleftrightarrow> wildcard_match pattern host"
proof (cases "CHR ''*'' \<in> set pattern")
  case False
  then have "split CHR ''*'' pattern = [pattern]" by (rule split_no_sep)
  with wildcard_pieces[of pattern host] have "wildcard_match pattern host \<longleftrightarrow> host = pattern"
    by simp
  with False h p show ?thesis by (simp add: matchHost_def)
next
  case True
  from split_sep_two[OF True] obtain s0 t ss where sp: "split CHR ''*'' pattern = s0 # t # ss"
    by blast
  define rest where "rest = t # ss"
  define parts' where "parts' = filter (\<lambda>s. s \<noteq> []) rest"
  define L where "L = last rest"
  have rest_ne: "rest \<noteq> []" by (simp add: rest_def)
  have sp': "split CHR ''*'' pattern = s0 # rest" by (simp add: sp rest_def)
  have wm: "wildcard_match pattern host \<longleftrightarrow>
      startsWith host s0 \<and> scanParts (drop (length s0) host) parts' 0
      \<and> (L \<noteq> [] \<longrightarrow> endsWith (drop (length s0) host) L)"
  proof -
    have "wildcard_match pattern host \<longleftrightarrow> startsWith host s0 \<and> free_match rest (drop (length s0) host)"
      using wildcard_pieces[of pattern host] by (simp add: sp rest_def)
    then show ?thesis
      using free_match_scan[OF rest_ne, of "drop (length s0) host"]
      by (simp only: parts'_def L_def)
  qed
  have st: "startsWith pattern ''*'' \<longleftrightarrow> s0 = []"
    using startsWith_star[OF p] split_hd[OF p, of "CHR ''*''"] by (simp add: sp')
  have en: "endsWith pattern ''*'' \<longleftrightarrow> L = []"
    using endsWith_star[OF p] split_last[of "CHR ''*''" pattern] p rest_ne
    by (simp add: sp' L_def)
  have Lparts: "parts' \<noteq> [] \<and> last parts' = L" if "L \<noteq> []"
    using last_filter_nonempty[OF rest_ne] that unfolding parts'_def L_def by simp
  have mh: "matchHost host pattern \<longleftrightarrow>
      (let parts = filter (\<lambda>s. s \<noteq> []) (s0 # rest)
       in if length parts = 0 then True
          else if s0 \<noteq> [] \<and> \<not> startsWith host (hd parts) then False
          else if L \<noteq> [] \<and> \<not> endsWith host (last parts) then False
          else scanParts host parts 0)"
    using True h p by (simp add: matchHost_def sp' st en Let_def)
  show ?thesis
  proof (cases "s0 = []")
    case s0: True
    show ?thesis
    proof (cases "parts' = []")
      case True
      with Lparts have "L = []" by blast
      with True s0 show ?thesis by (simp add: mh wm parts'_def startsWith_def)
    next
      case False
      show ?thesis
      proof (cases "L = []")
        case True
        with False s0 show ?thesis by (simp add: mh wm parts'_def[symmetric] startsWith_def)
      next
        case Lne: False
        with Lparts have "last parts' = L" by blast
        with False s0 Lne show ?thesis
          by (auto simp add: mh wm parts'_def[symmetric] startsWith_def)
      qed
    qed
  next
    case s0: False
    have parts: "filter (\<lambda>s. s \<noteq> []) (s0 # rest) = s0 # parts'"
      using s0 by (simp add: parts'_def)
    have mh': "matchHost host pattern \<longleftrightarrow>
        startsWith host s0 \<and> (L \<noteq> [] \<longrightarrow> endsWith host (last (s0 # parts')))
        \<and> scanParts host (s0 # parts') 0"
      unfolding mh parts Let_def using s0 by (auto simp del: last.simps scanParts.simps)
    show ?thesis
    proof (cases "startsWith host s0")
      case False
      then show ?thesis by (simp add: mh' wm)
    next
      case sw: True
      from startsWith_length[OF sw] have len: "length s0 \<le> length host" .
      have scan: "scanParts host (s0 # parts') 0 \<longleftrightarrow> scanParts (drop (length s0) host) parts' 0"
        using indexOf_startsWith[OF sw] scanParts_shift[OF len, of parts'] by simp
      show ?thesis
      proof (cases "scanParts (drop (length s0) host) parts' 0")
        case False
        with scan show ?thesis by (simp add: mh' wm)
      next
        case sc: True
        have ends: "endsWith host (last (s0 # parts')) \<longleftrightarrow> endsWith (drop (length s0) host) L"
          if Lne: "L \<noteq> []"
        proof -
          from Lparts[OF Lne] have lp: "parts' \<noteq> []" "last parts' = L" by simp_all
          then have l: "last (s0 # parts') = L" by simp
          have "scanParts host parts' (length s0)"
            using sc scanParts_shift[OF len, of parts'] by simp
          from scanParts_last_fits[OF this lp(1)] lp(2) have fit: "length s0 + length L \<le> length host"
            by simp
          show ?thesis unfolding l
            using endsWith_drop[of "length s0" host L] endsWith_into_drop[OF _ fit] by blast
        qed
        show ?thesis
          using sw sc scan ends by (auto simp add: mh' wm)
      qed
    qed
  qed
qed

text \<open>
  C6. With an empty allow-list every host is allowed, so the qualifying images are those
  whose host is not on the ignore-list. A pattern without \<open>*\<close> matches exactly the host
  equal to it. For a non-empty host, a pattern matches exactly when the host is the
  pattern with each \<open>*\<close> replaced by some run of characters: \<open>*\<close> is a wildcard for any
  number of characters, and the match is anchored at both ends unless the pattern itself
  begins or ends with \<open>*\<close>. With the allow-list \<open>["*.cdn.example.com"]\<close>, the host
  \<open>a.cdn.example.com\<close> is allowed and \<open>cdn.example.com\<close> is not.
\<close>

theorem matchHost_spec:
  "allowedHost [] host
   \<and> imgData pg ignoreHosts [] = filter (\<lambda>e. e_hostname e \<notin> set ignoreHosts) (imgData pg [] [])
   \<and> (CHR ''*'' \<notin> set pattern \<longrightarrow> (matchHost host pattern \<longleftrightarrow> host = pattern \<and> pattern \<noteq> []))
   \<and> (host \<noteq> [] \<and> pattern \<noteq> [] \<longrightarrow> (matchHost host pattern \<longleftrightarrow> wildcard_match pattern host))
   \<and> allowedHost [''*.cdn.example.com''] ''a.cdn.example.com''
   \<and> \<not> allowedHost [''*.cdn.example.com''] ''cdn.example.com''"
proof -
  have a: "allowedHost [] host" for host
    by (simp add: allowedHost_def)
  have b: "imgData pg ignoreHosts [] = filter (\<lambda>e. e_hostname e \<notin> set ignoreHosts) (imgData pg [] [])"
    by (simp add: imgData_def a)
  have c: "CHR ''*'' \<notin> set pattern \<longrightarrow> (matchHost host pattern \<longleftrightarrow> host = pattern \<and> pattern \<noteq> [])"
    by (auto simp: matchHost_def)
  have d: "host \<noteq> [] \<and> pattern \<noteq> [] \<longrightarrow> (matchHost host pattern \<longleftrightarrow> wildcard_match pattern host)"
    using matchHost_wildcard by blast
  have e1: "wildcard_match ''*.cdn.example.com'' ''a.cdn.example.com''"
    by simp
  have e2: "\<not> wildcard_match ''*.cdn.example.com'' ''cdn.example.com''"
    by simp
  have e: "allowedHost [''*.cdn.example.com''] ''a.cdn.example.com''"
    "\<not> allowedHost [''*.cdn.example.com''] ''cdn.example.com''"
    using e1 e2 by (simp_all add: allowedHost_def matchHost_wildcard)
  from a b c d e show ?thesis by (intro conjI)
qed

theorem matchHost_spec_witness:
  "matchHost ''img.static.example.org'' ''img.*.example.*''
   \<and> \<not> matchHost ''ximg.static.example.org'' ''img.*.example.*''
   \<and> matchHost ''example.com'' ''example.com''"
proof -
  have w1: "wildcard_match ''img.*.example.*'' ''img.static.example.org''" by simp
  have w2: "\<not> wildcard_match ''img.*.example.*'' ''ximg.static.example.org''" by simp
  from matchHost_spec[of "''img.static.example.org''" _ _ "''img.*.example.*''"] w1
  have "matchHost ''img.static.example.org'' ''img.*.example.*''" by simp
  moreover from matchHost_spec[of "''ximg.static.example.org''" _ _ "''img.*.example.*''"] w2
  have "\<not> matchHost ''ximg.static.example.org'' ''img.*.example.*''" by simp
  moreover from matchHost_spec[of "''example.com''" _ _ "''example.com''"]
  have "matchHost ''example.com'' ''example.com''" by simp
  ultimately show ?thesis by simp
qed

section \<open>Properties of the poll loop and the trial runner\<close>

lemma waitForImages_loop_result:
  "waitForImages_loop env ig al mw el k = Inr (r, t) \<Longrightarrow>
   \<exists>n pg. k \<le> n \<and> page_at env n = Inr pg \<and> w_stats r = collectImageTimings pg ig al
     \<and> (\<forall>j. k \<le> j \<and> j < n \<longrightarrow>
            (\<exists>pj. page_at env j = Inr pj
                \<and> total' (collectImageTimings pj ig al) \<noteq> 0
                \<and> total' (collectImageTimings pj ig al) \<noteq> failed (collectImageTimings pj ig al)
                \<and> pending (collectImageTimings pj ig al) \<noteq> 0))
     \<and> t = el + (\<Sum>j = k..<n. int (collect_ms env j) + pollMs) + int (collect_ms env n)
     \<and> (if el + (\<Sum>j = k..<n. int (collect_ms env j) + pollMs) < mw
         then \<not> w_timeout r
              \<and> w_timeoutReason r =
                  (if total' (w_stats r) = 0 \<or> total' (w_stats r) = failed (w_stats r)
                   then Some ''no_images''
                   else if failed (w_stats r) > 0 then Some ''images_failed'' else None)
              \<and> (total' (w_stats r) = 0 \<or> total' (w_stats r) = failed (w_stats r)
                   \<or> pending (w_stats r) = 0)
         else w_timeout r \<and> w_timeoutReason r = Some ''timeout'')"
proof (induction env ig al mw el k rule: waitForImages_loop.induct)
  case (1 env ig al mw el k)
  note eq = "1.prems"[unfolded waitForImages_loop.simps[of env ig al mw el k]]
  show ?case
  proof (cases "el < mw")
    case False
    with eq obtain pg where pg: "page_at env k = Inr pg"
      and r: "r = \<lparr>w_timeout = True, w_timeoutReason = Some ''timeout'',
                   w_stats = collectImageTimings pg ig al\<rparr>"
      and t: "t = el + int (collect_ms env k)"
      by (auto split: sum.splits)
    show ?thesis
      apply (rule exI[of _ k], rule exI[of _ pg])
      using False pg r t by simp
  next
    case True
    with eq obtain pg where pg: "page_at env k = Inr pg"
      by (auto split: sum.splits)
    define st where "st = collectImageTimings pg ig al"
    show ?thesis
    proof (cases "total' st = 0 \<or> total' st = failed st \<or> pending st = 0")
      case stop: True
      from eq True pg stop have r: "w_stats r = st" "\<not> w_timeout r"
        "w_timeoutReason r = (if total' st = 0 \<or> total' st = failed st then Some ''no_images''
                   else if failed st > 0 then Some ''images_failed'' else None)"
        and t: "t = el + int (collect_ms env k)"
        by (auto simp: st_def Let_def split: if_splits)
      show ?thesis
        apply (rule exI[of _ k], rule exI[of _ pg])
        using True pg r t stop by (simp add: st_def)
    next
      case nonterm: False
      from eq True pg nonterm
      have rec: "waitForImages_loop env ig al mw (el + int (collect_ms env k) + pollMs) (Suc k) = Inr (r, t)"
        by (simp add: st_def Let_def)
      have nt1: "\<not> (total' (collectImageTimings pg ig al) = 0
                    \<or> total' (collectImageTimings pg ig al) = failed (collectImageTimings pg ig al))"
        and nt2: "pending (collectImageTimings pg ig al) \<noteq> 0"
        using nonterm by (simp_all add: st_def)
      have "\<exists>n pg. Suc k \<le> n \<and> page_at env n = Inr pg \<and> w_stats r = collectImageTimings pg ig al
     \<and> (\<forall>j. Suc k \<le> j \<and> j < n \<longrightarrow>
            (\<exists>pj. page_at env j = Inr pj
                \<and> total' (collectImageTimings pj ig al) \<noteq> 0
                \<and> total' (collectImageTimings pj ig al) \<noteq> failed (collectImageTimings pj ig al)
                \<and> pending (collectImageTimings pj ig al) \<noteq> 0))
     \<and> t = (el + int (collect_ms env k) + pollMs) + (\<Sum>j = Suc k..<n. int (collect_ms env j) + pollMs) + int (collect_ms env n)
     \<and> (if (el + int (collect_ms env k) + pollMs) + (\<Sum>j = Suc k..<n. int (collect_ms env j) + pollMs) < mw
         then \<not> w_timeout r
              \<and> w_timeoutReason r =
                  (if total' (w_stats r) = 0 \<or> total' (w_stats r) = failed (w_stats r)
                   then Some ''no_images''
                   else if failed (w_stats r) > 0 then Some ''images_failed'' else None)
              \<and> (total' (w_stats r) = 0 \<or> total' (w_stats r) = failed (w_stats r)
                   \<or> pending (w_stats r) = 0)
         else w_timeout r \<and> w_timeoutReason r = Some ''timeout'')"
        by (rule "1.IH"[OF True pg refl refl nt1 nt2 rec])
      then obtain n pn where n: "Suc k \<le> n" "page_at env n = Inr pn"
        "w_stats r = collectImageTimings pn ig al"
        and before: "\<forall>j. Suc k \<le> j \<and> j < n \<longrightarrow>
            (\<exists>pj. page_at env j = Inr pj
                \<and> total' (collectImageTimings pj ig al) \<noteq> 0
                \<and> total' (collectImageTimings pj ig al) \<noteq> failed (collectImageTimings pj ig al)
                \<and> pending (collectImageTimings pj ig al) \<noteq> 0)"
        and t: "t = (el + int (collect_ms env k) + pollMs) + (\<Sum>j = Suc k..<n. int (collect_ms env j) + pollMs) + int (collect_ms env n)"
        and res: "(if (el + int (collect_ms env k) + pollMs) + (\<Sum>j = Suc k..<n. int (collect_ms env j) + pollMs) < mw
         then \<not> w_timeout r
              \<and> w_timeoutReason r =
                  (if total' (w_stats r) = 0 \<or> total' (w_stats r) = failed (w_stats r)
                   then Some ''no_images''
                   else if failed (w_stats r) > 0 then Some ''images_failed'' else None)
              \<and> (total' (w_stats r) = 0 \<or> total' (w_stats r) = failed (w_stats r)
                   \<or> pending (w_stats r) = 0)
         else w_timeout r \<and> w_timeoutReason r = Some ''timeout'')"
        by blast
      have sum_eq: "(\<Sum>j = k..<n. int (collect_ms env j) + pollMs)
                    = int (collect_ms env k) + pollMs + (\<Sum>j = Suc k..<n. int (collect_ms env j) + pollMs)"
        using n(1) by (simp add: sum.atLeast_Suc_lessThan)
      have before': "\<forall>j. k \<le> j \<and> j < n \<longrightarrow>
            (\<exists>pj. page_at env j = Inr pj
                \<and> total' (collectImageTimings pj ig al) \<noteq> 0
                \<and> total' (collectImageTimings pj ig al) \<noteq> failed (collectImageTimings pj ig al)
                \<and> pending (collectImageTimings pj ig al) \<noteq> 0)"
      proof (intro allI impI)
        fix j assume j: "k \<le> j \<and> j < n"
        show "\<exists>pj. page_at env j = Inr pj
                \<and> total' (collectImageTimings pj ig al) \<noteq> 0
                \<and> total' (collectImageTimings pj ig al) \<noteq> failed (collectImageTimings pj ig al)
                \<and> pending (collectImageTimings pj ig al) \<noteq> 0"
        proof (cases "j = k")
          case True
          then show ?thesis using pg nonterm by (simp add: st_def)
        next
          case False
          then have "Suc k \<le> j \<and> j < n" using j by simp
          then show ?thesis using before by blast
        qed
      qed
      show ?thesis
        apply (rule exI[of _ n], rule exI[of _ pn])
        using n before' t res sum_eq by (simp add: add.assoc)
    qed
  qed
qed

lemma waitForImages_loop_returns:
  "(\<forall>j. \<exists>pg. page_at env j = Inr pg) \<Longrightarrow>
   \<exists>r t. waitForImages_loop env ig al mw el k = Inr (r, t)"
proof (induction env ig al mw el k rule: waitForImages_loop.induct)
  case (1 env ig al mw el k)
  from "1.prems" obtain pg where pg: "page_at env k = Inr pg" by blast
  show ?case
  proof (cases "el < mw")
    case False
    then show ?thesis
      by (subst waitForImages_loop.simps) (simp add: pg)
  next
    case True
    show ?thesis
    proof (cases "total' (collectImageTimings pg ig al) = 0
                  \<or> total' (collectImageTimings pg ig al) = failed (collectImageTimings pg ig al)")
      case True
      with \<open>el < mw\<close> show ?thesis
        by (subst waitForImages_loop.simps) (simp add: pg Let_def)
    next
      case nt1: False
      show ?thesis
      proof (cases "pending (collectImageTimings pg ig al) = 0")
        case True
        with \<open>el < mw\<close> nt1 show ?thesis
          by (subst waitForImages_loop.simps) (simp add: pg Let_def)
      next
        case nt2: False
        from "1.IH"[OF True pg refl refl nt1 nt2 "1.prems"]
        obtain r t where
          "waitForImages_loop env ig al mw (el + int (collect_ms env k) + pollMs) (Suc k) = Inr (r, t)"
          by blast
        with \<open>el < mw\<close> nt1 nt2 show ?thesis
          by (subst waitForImages_loop.simps) (simp add: pg Let_def)
      qed
    qed
  qed
qed

lemma collect_failed_page:
  "collectImageTimings failed_page ig [] =
     \<lparr>total' = 1, loaded = 0, failed = 1, pending = 0, failedUrls = [''https://a.example/x.png''],
      pendingUrls = [], urls = [''https://a.example/x.png''], hosts = [''a.example''],
      maxResponseEnd = None, imagesOnlyMs = None, avgImageMs = None, sumImageMs = None,
      imageTimings = []\<rparr>"
  if "''a.example'' \<notin> set ig"
  using that
  by (simp add: collectImageTimings_def imgData_def failed_page_def classifyImage_def findTiming_def
      allowedHost_def uniq_def Let_def)

lemma collect_pending_page:
  "collectImageTimings pending_page ig [] =
     \<lparr>total' = 1, loaded = 0, failed = 0, pending = 1, failedUrls = [],
      pendingUrls = [''https://a.example/x.png''], urls = [''https://a.example/x.png''], hosts = [''a.example''],
      maxResponseEnd = None, imagesOnlyMs = None, avgImageMs = None, sumImageMs = None,
      imageTimings = []\<rparr>"
  if "''a.example'' \<notin> set ig"
  using that
  by (simp add: collectImageTimings_def imgData_def pending_page_def classifyImage_def findTiming_def
      allowedHost_def uniq_def Let_def)

lemma collect_loaded_page:
  "collectImageTimings loaded_page ig [] =
     \<lparr>total' = 1, loaded = 1, failed = 0, pending = 0, failedUrls = [],
      pendingUrls = [], urls = [''https://a.example/x.png''], hosts = [''a.example''],
      maxResponseEnd = Some 180, imagesOnlyMs = Some 80, avgImageMs = Some 80, sumImageMs = Some 80,
      imageTimings = [\<lparr>url = ''https://a.example/x.png'', responseEnd = Some 180, ttfb = Some 30,
                        duration = Some 80, transferSize = Some 2048, noTiming = False\<rparr>]\<rparr>"
  if "''a.example'' \<notin> set ig"
  using that
  by (simp add: collectImageTimings_def imgData_def loaded_page_def classifyImage_def findTiming_def
      allowedHost_def uniq_def Let_def Math_max_def Math_min_def num_def)

text \<open>
  C2, as the loop implements it. \<open>waitForImages\<close> returns whenever every evaluation of the
  collector succeeds. It returns early, at the first poll within the time budget whose
  snapshot has no qualifying image, only failed images, or nothing pending: with reason
  \<open>no_images\<close> exactly when there is no qualifying image or every qualifying image failed;
  with reason \<open>null\<close> when there are qualifying images, nothing pending and nothing failed;
  with \<open>images_failed\<close> when nothing is pending and some but not all images failed. Once
  the maximum wait is used up it returns \<open>timeout\<close> with the snapshot collected then,
  whatever it holds.
\<close>

theorem waitForImages_termination_reasons:
  "((\<forall>j. \<exists>pg. page_at env j = Inr pg) \<longrightarrow> (\<exists>r t. waitForImages env ig al mw = Inr (r, t)))
   \<and> (\<forall>r t. waitForImages env ig al mw = Inr (r, t) \<longrightarrow>
         (w_timeoutReason r = Some ''no_images'' \<longleftrightarrow>
            \<not> w_timeout r \<and> (total' (w_stats r) = 0 \<or> total' (w_stats r) = failed (w_stats r)))
       \<and> (w_timeoutReason r = None \<longleftrightarrow>
            \<not> w_timeout r \<and> total' (w_stats r) \<noteq> 0 \<and> pending (w_stats r) = 0 \<and> failed (w_stats r) = 0)
       \<and> (w_timeoutReason r = Some ''images_failed'' \<longleftrightarrow>
            \<not> w_timeout r \<and> total' (w_stats r) \<noteq> 0 \<and> total' (w_stats r) \<noteq> failed (w_stats r)
            \<and> pending (w_stats r) = 0
            \<and> failed (w_stats r) > 0)
       \<and> (w_timeoutReason r = Some ''timeout'' \<longleftrightarrow> w_timeout r)
       \<and> (\<exists>n pg. page_at env n = Inr pg \<and> w_stats r = collectImageTimings pg ig al
             \<and> (\<forall>j<n. \<exists>pj. page_at env j = Inr pj
                    \<and> total' (collectImageTimings pj ig al) \<noteq> 0
                    \<and> total' (collectImageTimings pj ig al) \<noteq> failed (collectImageTimings pj ig al)
                    \<and> pending (collectImageTimings pj ig al) \<noteq> 0)
             \<and> (w_timeout r \<longleftrightarrow> mw \<le> (\<Sum>j<n. int (collect_ms env j) + pollMs))))"
proof (intro conjI allI impI)
  assume "\<forall>j. \<exists>pg. page_at env j = Inr pg"
  then show "\<exists>r t. waitForImages env ig al mw = Inr (r, t)"
    unfolding waitForImages_def by (rule waitForImages_loop_returns)
next
  fix r t assume "waitForImages env ig al mw = Inr (r, t)"
  then have "waitForImages_loop env ig al mw 0 0 = Inr (r, t)"
    by (simp add: waitForImages_def)
  from waitForImages_loop_result[OF this]
  obtain n pg where n: "page_at env n = Inr pg" "w_stats r = collectImageTimings pg ig al"
    and before: "\<forall>j<n. \<exists>pj. page_at env j = Inr pj
                    \<and> total' (collectImageTimings pj ig al) \<noteq> 0
                    \<and> total' (collectImageTimings pj ig al) \<noteq> failed (collectImageTimings pj ig al)
                    \<and> pending (collectImageTimings pj ig al) \<noteq> 0"
    and res: "(if (\<Sum>j<n. int (collect_ms env j) + pollMs) < mw
         then \<not> w_timeout r
              \<and> w_timeoutReason r =
                  (if total' (w_stats r) = 0 \<or> total' (w_stats r) = failed (w_stats r)
                   then Some ''no_images''
                   else if failed (w_stats r) > 0 then Some ''images_failed'' else None)
              \<and> (total' (w_stats r) = 0 \<or> total' (w_stats r) = failed (w_stats r)
                   \<or> pending (w_stats r) = 0)
         else w_timeout r \<and> w_timeoutReason r = Some ''timeout'')"
    by (auto simp: atLeast0LessThan)
  show "w_timeoutReason r = Some ''no_images'' \<longleftrightarrow>
            \<not> w_timeout r \<and> (total' (w_stats r) = 0 \<or> total' (w_stats r) = failed (w_stats r))"
    using res by (auto split: if_splits)
  show "w_timeoutReason r = None \<longleftrightarrow>
            \<not> w_timeout r \<and> total' (w_stats r) \<noteq> 0 \<and> pending (w_stats r) = 0 \<and> failed (w_stats r) = 0"
    using res by (auto split: if_splits)
  show "w_timeoutReason r = Some ''images_failed'' \<longleftrightarrow>
            \<not> w_timeout r \<and> total' (w_stats r) \<noteq> 0 \<and> total' (w_stats r) \<noteq> failed (w_stats r)
            \<and> pending (w_stats r) = 0
            \<and> failed (w_stats r) > 0"
    using res by (auto split: if_splits)
  show "w_timeoutReason r = Some ''timeout'' \<longleftrightarrow> w_timeout r"
    using res by (auto split: if_splits)
  have "w_timeout r \<longleftrightarrow> mw \<le> (\<Sum>j<n. int (collect_ms env j) + pollMs)"
    using res by (auto split: if_splits)
  with n before
  show "\<exists>n pg. page_at env n = Inr pg \<and> w_stats r = collectImageTimings pg ig al
             \<and> (\<forall>j<n. \<exists>pj. page_at env j = Inr pj
                    \<and> total' (collectImageTimings pj ig al) \<noteq> 0
                    \<and> total' (collectImageTimings pj ig al) \<noteq> failed (collectImageTimings pj ig al)
                    \<and> pending (collectImageTimings pj ig al) \<noteq> 0)
             \<and> (w_timeout r \<longleftrightarrow> mw \<le> (\<Sum>j<n. int (collect_ms env j) + pollMs))"
    by blast
qed

theorem waitForImages_termination_reasons_witness:
  "(\<forall>j. \<exists>pg. page_at (example_env (Inr None) (\<lambda>k. Inr (if k = 0 then pending_page else loaded_page))) j = Inr pg)
   \<and> waitForImages (example_env (Inr None) (\<lambda>k. Inr (if k = 0 then pending_page else loaded_page))) [] [] 60000 =
       Inr (\<lparr>w_timeout = False, w_timeoutReason = None,
             w_stats = collectImageTimings loaded_page [] []\<rparr>, 220)
   \<and> total' (collectImageTimings loaded_page [] []) \<noteq> 0
   \<and> pending (collectImageTimings loaded_page [] []) = 0
   \<and> failed (collectImageTimings loaded_page [] []) = 0"
proof -
  let ?env = "example_env (Inr None) (\<lambda>k. Inr (if k = 0 then pending_page else loaded_page))"
  have pages: "\<forall>j. \<exists>pg. page_at ?env j = Inr pg"
    by (simp add: example_env_def)
  have loop1: "waitForImages_loop ?env [] [] 60000 210 (Suc 0) =
       Inr (\<lparr>w_timeout = False, w_timeoutReason = None,
             w_stats = collectImageTimings loaded_page [] []\<rparr>, 220)"
    by (subst waitForImages_loop.simps) (simp add: example_env_def collect_loaded_page Let_def)
  have run: "waitForImages ?env [] [] 60000 =
       Inr (\<lparr>w_timeout = False, w_timeoutReason = None,
             w_stats = collectImageTimings loaded_page [] []\<rparr>, 220)"
    unfolding waitForImages_def
    apply (subst waitForImages_loop.simps)
    using loop1 by (simp add: example_env_def collect_pending_page Let_def pollMs_def)
  have counts: "total' (collectImageTimings loaded_page [] []) \<noteq> 0"
    "pending (collectImageTimings loaded_page [] []) = 0"
    "failed (collectImageTimings loaded_page [] []) = 0"
    by (simp_all add: collect_loaded_page)
  from waitForImages_termination_reasons[of ?env "[]" "[]" 60000] pages run
  have "w_timeoutReason \<lparr>w_timeout = False, w_timeoutReason = None,
             w_stats = collectImageTimings loaded_page [] []\<rparr> = None \<longleftrightarrow>
        \<not> w_timeout \<lparr>w_timeout = False, w_timeoutReason = None,
             w_stats = collectImageTimings loaded_page [] []\<rparr>
        \<and> total' (collectImageTimings loaded_page [] []) \<noteq> 0
        \<and> pending (collectImageTimings loaded_page [] []) = 0
        \<and> failed (collectImageTimings loaded_page [] []) = 0"
    by simp
  with pages run show ?thesis by simp
qed

text \<open>
  C2 as the specification words it fails: on a page whose one qualifying image
  failed (one qualifying image, none pending) the loop returns \<open>no_images\<close>, not
  \<open>images_failed\<close>.
\<close>

theorem waitForImages_all_failed_counterexample:
  "waitForImages (example_env (Inr None) (\<lambda>k. Inr failed_page)) [] [] 60000 =
     Inr (\<lparr>w_timeout = False, w_timeoutReason = Some ''no_images'',
           w_stats = collectImageTimings failed_page [] []\<rparr>, 10)
   \<and> total' (collectImageTimings failed_page [] []) = 1
   \<and> failed (collectImageTimings failed_page [] []) = 1
   \<and> pending (collectImageTimings failed_page [] []) = 0"
  by (simp add: waitForImages_def waitForImages_loop.simps[of _ _ _ _ 0 0] example_env_def
      collect_failed_page Let_def)

text \<open>
  C9. When the navigation call throws, \<open>runSingle\<close> still returns a trial result:
  \<open>timeoutReason\<close> is \<open>navigation_timeout\<close> for an error named \<open>TimeoutError\<close> and
  \<open>navigation_error\<close> otherwise, \<open>timeout\<close> is true, the images-loaded duration is
  \<open>null\<close>, the total, loaded, failed and pending counts are zero, the URL lists are
  empty and the error count is zero; the record built from it has \<open>timeout = true\<close>,
  \<open>images_loaded_ms = null\<close> and \<open>errors_count = 0\<close>.
\<close>

theorem runSingle_navigation_failure:
  "goto_result env = Inl err \<Longrightarrow>
     timeoutReason (runSingle env sd al tm) =
       Some (if err_name err = ''TimeoutError'' then ''navigation_timeout'' else ''navigation_error'')
   \<and> timeout (runSingle env sd al tm)
   \<and> imagesLoadedMs (runSingle env sd al tm) = None
   \<and> imagesTotal (runSingle env sd al tm) = 0
   \<and> imagesLoaded (runSingle env sd al tm) = 0
   \<and> imagesFailed (runSingle env sd al tm) = 0
   \<and> imagesPending (runSingle env sd al tm) = 0
   \<and> imageUrls (runSingle env sd al tm) = []
   \<and> imageFailedUrls (runSingle env sd al tm) = []
   \<and> imageHosts (runSingle env sd al tm) = []
   \<and> errorsCount (runSingle env sd al tm) = 0
   \<and> rec_timeout (cmdRun_record now pageId v i (runSingle env sd al tm) c g) = True
   \<and> images_loaded_ms (cmdRun_record now pageId v i (runSingle env sd al tm) c g) = None
   \<and> errors_count (cmdRun_record now pageId v i (runSingle env sd al tm) c g) = Some 0"
  by (simp add: runSingle_def runSingle_try_def navFailedStats_def cmdRun_record_def Let_def)

theorem runSingle_navigation_failure_witness:
  "goto_result (example_env (Inl (JsError ''TimeoutError'' ''Timeout 60000ms exceeded'')) (\<lambda>k. Inr loaded_page))
     = Inl (JsError ''TimeoutError'' ''Timeout 60000ms exceeded'')
   \<and> timeoutReason (runSingle (example_env (Inl (JsError ''TimeoutError'' ''Timeout 60000ms exceeded''))
                       (\<lambda>k. Inr loaded_page)) (Some 100) [] 60000) = Some ''navigation_timeout''
   \<and> timeout (runSingle (example_env (Inl (JsError ''TimeoutError'' ''Timeout 60000ms exceeded''))
                       (\<lambda>k. Inr loaded_page)) (Some 100) [] 60000)
   \<and> imagesLoadedMs (runSingle (example_env (Inl (JsError ''TimeoutError'' ''Timeout 60000ms exceeded''))
                       (\<lambda>k. Inr loaded_page)) (Some 100) [] 60000) = None
   \<and> errorsCount (runSingle (example_env (Inl (JsError ''TimeoutError'' ''Timeout 60000ms exceeded''))
                       (\<lambda>k. Inr loaded_page)) (Some 100) [] 60000) = 0"
proof -
  have nav: "goto_result (example_env (Inl (JsError ''TimeoutError'' ''Timeout 60000ms exceeded'')) (\<lambda>k. Inr loaded_page))
     = Inl (JsError ''TimeoutError'' ''Timeout 60000ms exceeded'')"
    by (simp add: example_env_def)
  from runSingle_navigation_failure[OF nav, of "Some 100" "[]" 60000] nav
  show ?thesis by simp
qed

lemma collect_mixed_page:
  "total' (collectImageTimings mixed_page ig []) = 2"
  "failed (collectImageTimings mixed_page ig []) = 1"
  "pending (collectImageTimings mixed_page ig []) = 0"
  "length (imgData mixed_page ig []) = 2"
  if "''a.example'' \<notin> set ig"
  using that
  by (simp_all add: collectImageTimings_def imgData_def mixed_page_def classifyImage_def findTiming_def
      allowedHost_def uniq_def Let_def)

lemma waitForImages_loop_skip:
  assumes "k \<le> n"
    and "\<forall>j. k \<le> j \<and> j < n \<longrightarrow>
           (\<exists>pj. page_at env j = Inr pj
              \<and> total' (collectImageTimings pj ig al) \<noteq> 0
              \<and> total' (collectImageTimings pj ig al) \<noteq> failed (collectImageTimings pj ig al)
              \<and> pending (collectImageTimings pj ig al) \<noteq> 0
              \<and> el + (\<Sum>i = k..<j. int (collect_ms env i) + pollMs) < mw)"
  shows "waitForImages_loop env ig al mw el k =
         waitForImages_loop env ig al mw (el + (\<Sum>i = k..<n. int (collect_ms env i) + pollMs)) n"
  using assms
proof (induction n rule: dec_induct)
  case base
  show ?case by simp
next
  case (step m)
  from step.prems step.hyps(1) obtain pm where pm: "page_at env m = Inr pm"
    and nt: "total' (collectImageTimings pm ig al) \<noteq> 0"
      "total' (collectImageTimings pm ig al) \<noteq> failed (collectImageTimings pm ig al)"
      "pending (collectImageTimings pm ig al) \<noteq> 0"
    and tm: "el + (\<Sum>i = k..<m. int (collect_ms env i) + pollMs) < mw"
    by (metis lessI)
  have prefix: "\<forall>j. k \<le> j \<and> j < m \<longrightarrow>
           (\<exists>pj. page_at env j = Inr pj
              \<and> total' (collectImageTimings pj ig al) \<noteq> 0
              \<and> total' (collectImageTimings pj ig al) \<noteq> failed (collectImageTimings pj ig al)
              \<and> pending (collectImageTimings pj ig al) \<noteq> 0
              \<and> el + (\<Sum>i = k..<j. int (collect_ms env i) + pollMs) < mw)"
    using step.prems by (meson less_SucI)
  have "waitForImages_loop env ig al mw el k =
        waitForImages_loop env ig al mw (el + (\<Sum>i = k..<m. int (collect_ms env i) + pollMs)) m"
    by (rule step.IH[OF prefix])
  also have "\<dots> = waitForImages_loop env ig al mw
        (el + (\<Sum>i = k..<m. int (collect_ms env i) + pollMs) + int (collect_ms env m) + pollMs) (Suc m)"
    by (subst waitForImages_loop.simps) (simp add: pm nt tm Let_def del: waitForImages_loop.simps)
  also have "el + (\<Sum>i = k..<m. int (collect_ms env i) + pollMs) + int (collect_ms env m) + pollMs
             = el + (\<Sum>i = k..<Suc m. int (collect_ms env i) + pollMs)"
    using step.hyps(1) by simp
  finally show ?case .
qed

lemma waitForImages_stop:
  assumes prefix: "\<forall>j<n. \<exists>pj. page_at env j = Inr pj
              \<and> total' (collectImageTimings pj ig al) \<noteq> 0
              \<and> total' (collectImageTimings pj ig al) \<noteq> failed (collectImageTimings pj ig al)
              \<and> pending (collectImageTimings pj ig al) \<noteq> 0
              \<and> (\<Sum>i<j. int (collect_ms env i) + pollMs) < mw"
  shows "(page_at env n = Inl err \<longrightarrow> waitForImages env ig al mw = Inl err)
       \<and> (page_at env n = Inr pg
            \<and> (mw \<le> (\<Sum>i<n. int (collect_ms env i) + pollMs)
                \<or> total' (collectImageTimings pg ig al) = 0
                \<or> total' (collectImageTimings pg ig al) = failed (collectImageTimings pg ig al)
                \<or> pending (collectImageTimings pg ig al) = 0)
          \<longrightarrow> (\<exists>w t. waitForImages env ig al mw = Inr (w, t) \<and> w_stats w = collectImageTimings pg ig al))"
proof -
  have "waitForImages env ig al mw =
        waitForImages_loop env ig al mw (0 + (\<Sum>i = 0..<n. int (collect_ms env i) + pollMs)) n"
    unfolding waitForImages_def
    using prefix by (intro waitForImages_loop_skip) (simp_all add: atLeast0LessThan)
  then have eq: "waitForImages env ig al mw =
        waitForImages_loop env ig al mw (\<Sum>i<n. int (collect_ms env i) + pollMs) n"
    by (simp add: atLeast0LessThan)
  show ?thesis
    unfolding eq
    by (subst (1 2) waitForImages_loop.simps) (auto simp: Let_def simp del: waitForImages_loop.simps)
qed

lemma clock_lower: "int n * pollMs \<le> (\<Sum>i<n. int (collect_ms env i) + pollMs)"
proof (induction n)
  case 0
  show ?case by simp
next
  case (Suc n)
  have "int (Suc n) * pollMs = int n * pollMs + pollMs"
    by (simp add: distrib_right)
  moreover have "(\<Sum>i<Suc n. int (collect_ms env i) + pollMs)
      = (\<Sum>i<n. int (collect_ms env i) + pollMs) + (int (collect_ms env n) + pollMs)"
    by simp
  ultimately show ?case using Suc.IH by linarith
qed

lemma stopping_poll_exists:
  "\<exists>n. (\<forall>j<n. \<exists>pj. page_at env j = Inr pj
              \<and> total' (collectImageTimings pj ig al) \<noteq> 0
              \<and> total' (collectImageTimings pj ig al) \<noteq> failed (collectImageTimings pj ig al)
              \<and> pending (collectImageTimings pj ig al) \<noteq> 0
              \<and> (\<Sum>i<j. int (collect_ms env i) + pollMs) < mw)
     \<and> ((\<exists>err. page_at env n = Inl err)
         \<or> (\<exists>pg. page_at env n = Inr pg
              \<and> (mw \<le> (\<Sum>i<n. int (collect_ms env i) + pollMs)
                  \<or> total' (collectImageTimings pg ig al) = 0
                  \<or> total' (collectImageTimings pg ig al) = failed (collectImageTimings pg ig al)
                  \<or> pending (collectImageTimings pg ig al) = 0)))"
proof -
  define good where "good j \<longleftrightarrow> (\<exists>pj. page_at env j = Inr pj
              \<and> total' (collectImageTimings pj ig al) \<noteq> 0
              \<and> total' (collectImageTimings pj ig al) \<noteq> failed (collectImageTimings pj ig al)
              \<and> pending (collectImageTimings pj ig al) \<noteq> 0
              \<and> (\<Sum>i<j. int (collect_ms env i) + pollMs) < mw)" for j
  have "\<not> good (nat mw)"
  proof
    assume "good (nat mw)"
    then have lt: "(\<Sum>i<nat mw. int (collect_ms env i) + pollMs) < mw" by (auto simp: good_def)
    have "int (nat mw) * pollMs \<le> (\<Sum>i<nat mw. int (collect_ms env i) + pollMs)"
      by (rule clock_lower)
    moreover have "mw \<le> int (nat mw) * pollMs \<or> mw \<le> 0"
      by (cases "mw \<le> 0") (simp_all add: pollMs_def)
    moreover have "0 \<le> (\<Sum>i<nat mw. int (collect_ms env i) + pollMs)"
      by (intro sum_nonneg) (simp add: pollMs_def)
    ultimately show False using lt by linarith
  qed
  then have "\<exists>n. \<not> good n" ..
  define n where "n = (LEAST n. \<not> good n)"
  have n: "\<not> good n" "\<forall>j<n. good j"
  proof -
    show "\<not> good n" unfolding n_def using \<open>\<exists>n. \<not> good n\<close> by (rule LeastI_ex)
    show "\<forall>j<n. good j" unfolding n_def using not_less_Least by blast
  qed
  have "(\<exists>err. page_at env n = Inl err)
         \<or> (\<exists>pg. page_at env n = Inr pg
              \<and> (mw \<le> (\<Sum>i<n. int (collect_ms env i) + pollMs)
                  \<or> total' (collectImageTimings pg ig al) = 0
                  \<or> total' (collectImageTimings pg ig al) = failed (collectImageTimings pg ig al)
                  \<or> pending (collectImageTimings pg ig al) = 0))"
  proof (cases "page_at env n")
    case (Inl err)
    then show ?thesis by blast
  next
    case (Inr pg)
    with n(1) have "mw \<le> (\<Sum>i<n. int (collect_ms env i) + pollMs)
                  \<or> total' (collectImageTimings pg ig al) = 0
                  \<or> total' (collectImageTimings pg ig al) = failed (collectImageTimings pg ig al)
                  \<or> pending (collectImageTimings pg ig al) = 0"
      unfolding good_def by (auto simp add: not_less)
    with Inr show ?thesis by blast
  qed
  with n(2) show ?thesis unfolding good_def by blast
qed

text \<open>
  C10. Every trial has a poll at which it ends: the first one whose evaluation throws,
  whose snapshot has no qualifying image, only failed images or nothing pending, or
  which comes when the time budget is used up. When the navigation and the scrolling
  succeeded and that poll returned a snapshot, \<open>imagesTotal\<close> is the number of qualifying
  images of that snapshot minus its number of failed images and \<open>imagesFailed\<close> is the
  number of failed images; when the navigation, the scrolling or that evaluation threw,
  both are zero. The record's \<open>images_total\<close> and \<open>images_failed\<close> carry the two values
  unchanged.
\<close>

theorem runSingle_imagesTotal:
  "(\<exists>n. (\<forall>j<n. \<exists>pj. page_at env j = Inr pj
              \<and> total' (collectImageTimings pj IGNORED_IMAGE_HOSTS al) \<noteq> 0
              \<and> total' (collectImageTimings pj IGNORED_IMAGE_HOSTS al)
                   \<noteq> failed (collectImageTimings pj IGNORED_IMAGE_HOSTS al)
              \<and> pending (collectImageTimings pj IGNORED_IMAGE_HOSTS al) \<noteq> 0
              \<and> (\<Sum>i<j. int (collect_ms env i) + pollMs) < tm)
       \<and> ((\<exists>err. page_at env n = Inl err)
           \<or> (\<exists>pg. page_at env n = Inr pg
                \<and> (tm \<le> (\<Sum>i<n. int (collect_ms env i) + pollMs)
                    \<or> total' (collectImageTimings pg IGNORED_IMAGE_HOSTS al) = 0
                    \<or> total' (collectImageTimings pg IGNORED_IMAGE_HOSTS al)
                         = failed (collectImageTimings pg IGNORED_IMAGE_HOSTS al)
                    \<or> pending (collectImageTimings pg IGNORED_IMAGE_HOSTS al) = 0))))
   \<and> ((\<forall>j<n. \<exists>pj. page_at env j = Inr pj
              \<and> total' (collectImageTimings pj IGNORED_IMAGE_HOSTS al) \<noteq> 0
              \<and> total' (collectImageTimings pj IGNORED_IMAGE_HOSTS al)
                   \<noteq> failed (collectImageTimings pj IGNORED_IMAGE_HOSTS al)
              \<and> pending (collectImageTimings pj IGNORED_IMAGE_HOSTS al) \<noteq> 0
              \<and> (\<Sum>i<j. int (collect_ms env i) + pollMs) < tm)
      \<longrightarrow>
        (goto_result env = Inr nav
         \<and> (sd = None \<or> (\<exists>d. sd = Some d \<and> (d < 0 \<or> scroll_result env = None)))
         \<and> page_at env n = Inr pg
         \<and> (tm \<le> (\<Sum>i<n. int (collect_ms env i) + pollMs)
             \<or> total' (collectImageTimings pg IGNORED_IMAGE_HOSTS al) = 0
             \<or> total' (collectImageTimings pg IGNORED_IMAGE_HOSTS al)
                  = failed (collectImageTimings pg IGNORED_IMAGE_HOSTS al)
             \<or> pending (collectImageTimings pg IGNORED_IMAGE_HOSTS al) = 0)
         \<longrightarrow>
           imagesTotal (runSingle env sd al tm) =
             int (length (imgData pg IGNORED_IMAGE_HOSTS al))
               - int (failed (collectImageTimings pg IGNORED_IMAGE_HOSTS al))
         \<and> imagesFailed (runSingle env sd al tm) = failed (collectImageTimings pg IGNORED_IMAGE_HOSTS al)
         \<and> images_total (cmdRun_record now pageId v i (runSingle env sd al tm) c g) =
             Some (int (length (imgData pg IGNORED_IMAGE_HOSTS al))
                     - int (failed (collectImageTimings pg IGNORED_IMAGE_HOSTS al)))
         \<and> images_failed (cmdRun_record now pageId v i (runSingle env sd al tm) c g) =
             Some (int (failed (collectImageTimings pg IGNORED_IMAGE_HOSTS al))))
      \<and> ((\<exists>err. goto_result env = Inl err)
           \<or> (\<exists>d err. sd = Some d \<and> 0 \<le> d \<and> scroll_result env = Some err)
           \<or> (\<exists>err. page_at env n = Inl err)
         \<longrightarrow>
           imagesTotal (runSingle env sd al tm) = 0
         \<and> imagesFailed (runSingle env sd al tm) = 0
         \<and> images_total (cmdRun_record now pageId v i (runSingle env sd al tm) c g) = Some 0
         \<and> images_failed (cmdRun_record now pageId v i (runSingle env sd al tm) c g) = Some 0))"
proof (intro conjI impI)
  show "\<exists>n. (\<forall>j<n. \<exists>pj. page_at env j = Inr pj
              \<and> total' (collectImageTimings pj IGNORED_IMAGE_HOSTS al) \<noteq> 0
              \<and> total' (collectImageTimings pj IGNORED_IMAGE_HOSTS al)
                   \<noteq> failed (collectImageTimings pj IGNORED_IMAGE_HOSTS al)
              \<and> pending (collectImageTimings pj IGNORED_IMAGE_HOSTS al) \<noteq> 0
              \<and> (\<Sum>i<j. int (collect_ms env i) + pollMs) < tm)
       \<and> ((\<exists>err. page_at env n = Inl err)
           \<or> (\<exists>pg. page_at env n = Inr pg
                \<and> (tm \<le> (\<Sum>i<n. int (collect_ms env i) + pollMs)
                    \<or> total' (collectImageTimings pg IGNORED_IMAGE_HOSTS al) = 0
                    \<or> total' (collectImageTimings pg IGNORED_IMAGE_HOSTS al)
                         = failed (collectImageTimings pg IGNORED_IMAGE_HOSTS al)
                    \<or> pending (collectImageTimings pg IGNORED_IMAGE_HOSTS al) = 0)))"
    by (rule stopping_poll_exists)
next
  assume prefix: "\<forall>j<n. \<exists>pj. page_at env j = Inr pj
              \<and> total' (collectImageTimings pj IGNORED_IMAGE_HOSTS al) \<noteq> 0
              \<and> total' (collectImageTimings pj IGNORED_IMAGE_HOSTS al)
                   \<noteq> failed (collectImageTimings pj IGNORED_IMAGE_HOSTS al)
              \<and> pending (collectImageTimings pj IGNORED_IMAGE_HOSTS al) \<noteq> 0
              \<and> (\<Sum>i<j. int (collect_ms env i) + pollMs) < tm"
  note stop = waitForImages_stop[OF prefix]
  {
    assume ok: "goto_result env = Inr nav
         \<and> (sd = None \<or> (\<exists>d. sd = Some d \<and> (d < 0 \<or> scroll_result env = None)))
         \<and> page_at env n = Inr pg
         \<and> (tm \<le> (\<Sum>i<n. int (collect_ms env i) + pollMs)
             \<or> total' (collectImageTimings pg IGNORED_IMAGE_HOSTS al) = 0
             \<or> total' (collectImageTimings pg IGNORED_IMAGE_HOSTS al)
                  = failed (collectImageTimings pg IGNORED_IMAGE_HOSTS al)
             \<or> pending (collectImageTimings pg IGNORED_IMAGE_HOSTS al) = 0)"
    from stop[of _ pg] ok obtain w t where
      w: "waitForImages env IGNORED_IMAGE_HOSTS al tm = Inr (w, t)"
         "w_stats w = collectImageTimings pg IGNORED_IMAGE_HOSTS al"
      by blast
    from ok have "sd = None \<or> (\<exists>d. sd = Some d \<and> (d < 0 \<or> scroll_result env = None))"
      by blast
    then have "\<exists>s. autoScroll env sd = Inr s"
      by (auto simp: autoScroll_def)
    then obtain s where sc: "autoScroll env sd = Inr s" ..
    have tot: "total' (collectImageTimings pg IGNORED_IMAGE_HOSTS al) = length (imgData pg IGNORED_IMAGE_HOSTS al)"
      by (simp add: collectImageTimings_def Let_def)
    have r: "imagesTotal (runSingle env sd al tm) =
             int (length (imgData pg IGNORED_IMAGE_HOSTS al))
               - int (failed (collectImageTimings pg IGNORED_IMAGE_HOSTS al))"
      "imagesFailed (runSingle env sd al tm) = failed (collectImageTimings pg IGNORED_IMAGE_HOSTS al)"
      using ok w sc by (simp_all add: runSingle_def runSingle_try_def Let_def tot[symmetric])
    show "imagesTotal (runSingle env sd al tm) =
             int (length (imgData pg IGNORED_IMAGE_HOSTS al))
               - int (failed (collectImageTimings pg IGNORED_IMAGE_HOSTS al))"
      by (rule r(1))
    show "imagesFailed (runSingle env sd al tm) = failed (collectImageTimings pg IGNORED_IMAGE_HOSTS al)"
      by (rule r(2))
    show "images_total (cmdRun_record now pageId v i (runSingle env sd al tm) c g) =
             Some (int (length (imgData pg IGNORED_IMAGE_HOSTS al))
                     - int (failed (collectImageTimings pg IGNORED_IMAGE_HOSTS al)))"
      by (simp add: cmdRun_record_def r(1))
    show "images_failed (cmdRun_record now pageId v i (runSingle env sd al tm) c g) =
             Some (int (failed (collectImageTimings pg IGNORED_IMAGE_HOSTS al)))"
      by (simp add: cmdRun_record_def r(2))
  }
  {
    assume bad: "(\<exists>err. goto_result env = Inl err)
           \<or> (\<exists>d err. sd = Some d \<and> 0 \<le> d \<and> scroll_result env = Some err)
           \<or> (\<exists>err. page_at env n = Inl err)"
    have "\<exists>err. snd (runSingle_try env sd al tm) = Inl err"
    proof (cases "goto_result env")
      case (Inl err)
      then show ?thesis by (simp add: runSingle_try_def)
    next
      case nav: (Inr navResponse)
      show ?thesis
      proof (cases "autoScroll env sd")
        case (Inl err)
        with nav show ?thesis by (simp add: runSingle_try_def)
      next
        case sc: (Inr s)
        with bad nav obtain err where "page_at env n = Inl err"
          by (auto simp: autoScroll_def split: option.splits if_splits)
        with stop[of err] have "waitForImages env IGNORED_IMAGE_HOSTS al tm = Inl err" by blast
        with nav sc show ?thesis by (simp add: runSingle_try_def)
      qed
    qed
    then obtain err where e: "snd (runSingle_try env sd al tm) = Inl err" ..
    have r: "imagesTotal (runSingle env sd al tm) = 0" "imagesFailed (runSingle env sd al tm) = 0"
      using e by (simp_all add: runSingle_def Let_def navFailedStats_def)
    show "imagesTotal (runSingle env sd al tm) = 0" by (rule r(1))
    show "imagesFailed (runSingle env sd al tm) = 0" by (rule r(2))
    show "images_total (cmdRun_record now pageId v i (runSingle env sd al tm) c g) = Some 0"
      by (simp add: cmdRun_record_def r(1))
    show "images_failed (cmdRun_record now pageId v i (runSingle env sd al tm) c g) = Some 0"
      by (simp add: cmdRun_record_def r(2))
  }
qed

theorem runSingle_imagesTotal_witness:
  "imagesTotal (runSingle (example_env (Inr None) (\<lambda>k. Inr (if k = 0 then pending_page else mixed_page)))
                  (Some 100) [] 60000) = 1
   \<and> imagesFailed (runSingle (example_env (Inr None) (\<lambda>k. Inr (if k = 0 then pending_page else mixed_page)))
                  (Some 100) [] 60000) = 1
   \<and> length (imgData mixed_page IGNORED_IMAGE_HOSTS []) = 2
   \<and> failed (collectImageTimings mixed_page IGNORED_IMAGE_HOSTS []) = 1"
proof -
  let ?env = "example_env (Inr None) (\<lambda>k. Inr (if k = 0 then pending_page else mixed_page))"
  have ig: "''a.example'' \<notin> set IGNORED_IMAGE_HOSTS" by (simp add: IGNORED_IMAGE_HOSTS_def)
  note m = collect_mixed_page[OF ig]
  note p = collect_pending_page[OF ig]
  have prefix: "\<forall>j<Suc 0. \<exists>pj. page_at ?env j = Inr pj
              \<and> total' (collectImageTimings pj IGNORED_IMAGE_HOSTS []) \<noteq> 0
              \<and> total' (collectImageTimings pj IGNORED_IMAGE_HOSTS [])
                   \<noteq> failed (collectImageTimings pj IGNORED_IMAGE_HOSTS [])
              \<and> pending (collectImageTimings pj IGNORED_IMAGE_HOSTS []) \<noteq> 0
              \<and> (\<Sum>i<j. int (collect_ms ?env i) + pollMs) < 60000"
    by (simp add: example_env_def p)
  have ok: "goto_result ?env = Inr None
         \<and> (Some 100 = (None :: int option) \<or> (\<exists>d. Some 100 = Some d \<and> (d < 0 \<or> scroll_result ?env = None)))
         \<and> page_at ?env (Suc 0) = Inr mixed_page
         \<and> (60000 \<le> (\<Sum>i<Suc 0. int (collect_ms ?env i) + pollMs)
             \<or> total' (collectImageTimings mixed_page IGNORED_IMAGE_HOSTS []) = 0
             \<or> total' (collectImageTimings mixed_page IGNORED_IMAGE_HOSTS [])
                  = failed (collectImageTimings mixed_page IGNORED_IMAGE_HOSTS [])
             \<or> pending (collectImageTimings mixed_page IGNORED_IMAGE_HOSTS []) = 0)"
    by (simp add: example_env_def m)
  from runSingle_imagesTotal[of ?env "[]" 60000 "Suc 0" None "Some 100" mixed_page
      "[]" "[]" "[]" 0 None None] prefix ok
  have "imagesTotal (runSingle ?env (Some 100) [] 60000) =
             int (length (imgData mixed_page IGNORED_IMAGE_HOSTS []))
               - int (failed (collectImageTimings mixed_page IGNORED_IMAGE_HOSTS []))
         \<and> imagesFailed (runSingle ?env (Some 100) [] 60000)
             = failed (collectImageTimings mixed_page IGNORED_IMAGE_HOSTS [])"
    by blast
  then show ?thesis by (simp add: m)
qed

section \<open>Properties of the CSV report\<close>

lemma orBlank_blank: "orBlank v = blank \<longleftrightarrow> v = None"
  by (cases v) (simp_all add: orBlank_def blank_def)

lemma median_None: "median vs = None \<longleftrightarrow> vs = []"
  by (simp add: median_def Let_def)

lemma percentile_None: "percentile vs p = None \<longleftrightarrow> vs = []"
  by (simp add: percentile_def Let_def)

lemma notNull_Nil:
  "notNull (map f (filter P rs)) = [] \<longleftrightarrow> (\<forall>r \<in> set rs. P r \<longrightarrow> f r = None)"
  by (induction rs) (auto simp: notNull_def)

lemma summary_fields:
  "originMedian (computeSummary records) =
     map_option js_round (median (notNull (map images_loaded_ms (filter (\<lambda>r. variant r = ''origin'') records))))"
  "originP90 (computeSummary records) =
     map_option js_round (percentile (notNull (map images_loaded_ms (filter (\<lambda>r. variant r = ''origin'') records))) (9 / 10))"
  "originAvgImg (computeSummary records) =
     map_option js_round (median (notNull (map avg_image_ms (filter (\<lambda>r. variant r = ''origin'') records))))"
  "cdnMedian (computeSummary records) =
     map_option js_round (median (notNull (map images_loaded_ms (filter (\<lambda>r. variant r = ''cdn'') records))))"
  "cdnP90 (computeSummary records) =
     map_option js_round (percentile (notNull (map images_loaded_ms (filter (\<lambda>r. variant r = ''cdn'') records))) (9 / 10))"
  "cdnAvgImg (computeSummary records) =
     map_option js_round (median (notNull (map avg_image_ms (filter (\<lambda>r. variant r = ''cdn'') records))))"
  by (simp_all add: computeSummary_def Let_def median_def percentile_def)

lemma computeSummary_filled:
  "originMedian (computeSummary records) = None \<longleftrightarrow>
      (\<forall>r \<in> set records. variant r = ''origin'' \<longrightarrow> images_loaded_ms r = None)"
  "originP90 (computeSummary records) = None \<longleftrightarrow>
      (\<forall>r \<in> set records. variant r = ''origin'' \<longrightarrow> images_loaded_ms r = None)"
  "originAvgImg (computeSummary records) = None \<longleftrightarrow>
      (\<forall>r \<in> set records. variant r = ''origin'' \<longrightarrow> avg_image_ms r = None)"
  "cdnMedian (computeSummary records) = None \<longleftrightarrow>
      (\<forall>r \<in> set records. variant r = ''cdn'' \<longrightarrow> images_loaded_ms r = None)"
  "cdnP90 (computeSummary records) = None \<longleftrightarrow>
      (\<forall>r \<in> set records. variant r = ''cdn'' \<longrightarrow> images_loaded_ms r = None)"
  "cdnAvgImg (computeSummary records) = None \<longleftrightarrow>
      (\<forall>r \<in> set records. variant r = ''cdn'' \<longrightarrow> avg_image_ms r = None)"
  by (simp_all only: summary_fields option.map_disc_iff median_None percentile_None notNull_Nil)

text \<open>
  C3, as the report implements it. The header is the 19 column names of the
  specification, in its order. Every per-trial row has 19 cells, the last eight blank,
  and a number in its \<open>run\<close> cell. The report is the header, one row per record, and one
  last row: the timestamp, \<open>TOTAL\<close>, \<open>-\<close>, \<open>-\<close>, seven blank cells, and the eight summary
  cells, each of which holds its summary value and is blank exactly when that value is
  absent; the medians and percentiles of a variant are absent exactly when no record of
  the variant has the timing.
\<close>

theorem csv_report_layout:
  "CSV_HEADER = ''timestamp,page_id,variant,run,images_ms,avg_img_ms,ttfb_ms,lcp_ms,images_total,images_failed,errors,origin_median,origin_p90,origin_avg_img,cdn_median,cdn_p90,cdn_avg_img,improvement_%,improvement_p90_%''
   \<and> length CSV_HEADER_columns = 19
   \<and> length (recordToCsvRow_cells r) = 19
   \<and> drop 11 (recordToCsvRow_cells r) = replicate 8 blank
   \<and> recordToCsvRow_cells r ! 3 \<noteq> Str ''-''
   \<and> fst (saveReport records now) =
       [CSV_HEADER] @ map recordToCsvRow records @ [summaryToCsvRow (computeSummary records) now]
   \<and> length (summaryToCsvRow_cells summary timestamp) = 19
   \<and> take 11 (summaryToCsvRow_cells summary timestamp) =
       [Str timestamp, Str ''TOTAL'', Str ''-'', Str ''-''] @ replicate 7 blank
   \<and> drop 11 (summaryToCsvRow_cells summary timestamp) =
       [orBlank (originMedian summary), orBlank (originP90 summary), orBlank (originAvgImg summary),
        orBlank (cdnMedian summary), orBlank (cdnP90 summary), orBlank (cdnAvgImg summary),
        (case improvementMedian summary of None \<Rightarrow> blank | Some v \<Rightarrow> Str (toFixed1 v)),
        (case improvementP90 summary of None \<Rightarrow> blank | Some v \<Rightarrow> Str (toFixed1 v))]
   \<and> map (\<lambda>c. c = blank) (drop 11 (summaryToCsvRow_cells summary timestamp)) =
       [originMedian summary = None, originP90 summary = None, originAvgImg summary = None,
        cdnMedian summary = None, cdnP90 summary = None, cdnAvgImg summary = None,
        improvementMedian summary = None, improvementP90 summary = None]
   \<and> (originMedian (computeSummary records) = None \<longleftrightarrow>
      (\<forall>r \<in> set records. variant r = ''origin'' \<longrightarrow> images_loaded_ms r = None))
   \<and> (originP90 (computeSummary records) = None \<longleftrightarrow>
      (\<forall>r \<in> set records. variant r = ''origin'' \<longrightarrow> images_loaded_ms r = None))
   \<and> (originAvgImg (computeSummary records) = None \<longleftrightarrow>
      (\<forall>r \<in> set records. variant r = ''origin'' \<longrightarrow> avg_image_ms r = None))
   \<and> (cdnMedian (computeSummary records) = None \<longleftrightarrow>
      (\<forall>r \<in> set records. variant r = ''cdn'' \<longrightarrow> images_loaded_ms r = None))
   \<and> (cdnP90 (computeSummary records) = None \<longleftrightarrow>
      (\<forall>r \<in> set records. variant r = ''cdn'' \<longrightarrow> images_loaded_ms r = None))
   \<and> (cdnAvgImg (computeSummary records) = None \<longleftrightarrow>
      (\<forall>r \<in> set records. variant r = ''cdn'' \<longrightarrow> avg_image_ms r = None))"
proof -
  have header: "CSV_HEADER = ''timestamp,page_id,variant,run,images_ms,avg_img_ms,ttfb_ms,lcp_ms,images_total,images_failed,errors,origin_median,origin_p90,origin_avg_img,cdn_median,cdn_p90,cdn_avg_img,improvement_%,improvement_p90_%''"
    by (simp add: CSV_HEADER_def CSV_HEADER_columns_def)
  have cols: "length CSV_HEADER_columns = 19"
    by (simp add: CSV_HEADER_columns_def)
  have row: "length (recordToCsvRow_cells r) = 19"
    "drop 11 (recordToCsvRow_cells r) = replicate 8 blank"
    "recordToCsvRow_cells r ! 3 \<noteq> Str ''-''"
    by (simp_all add: recordToCsvRow_cells_def eval_nat_numeral)
  have report: "fst (saveReport records now) =
       [CSV_HEADER] @ map recordToCsvRow records @ [summaryToCsvRow (computeSummary records) now]"
    by (simp add: saveReport_def Let_def)
  have srow: "length (summaryToCsvRow_cells summary timestamp) = 19"
    "take 11 (summaryToCsvRow_cells summary timestamp) =
       [Str timestamp, Str ''TOTAL'', Str ''-'', Str ''-''] @ replicate 7 blank"
    by (simp_all add: summaryToCsvRow_cells_def eval_nat_numeral)
  have scols: "drop 11 (summaryToCsvRow_cells summary timestamp) =
       [orBlank (originMedian summary), orBlank (originP90 summary), orBlank (originAvgImg summary),
        orBlank (cdnMedian summary), orBlank (cdnP90 summary), orBlank (cdnAvgImg summary),
        (case improvementMedian summary of None \<Rightarrow> blank | Some v \<Rightarrow> Str (toFixed1 v)),
        (case improvementP90 summary of None \<Rightarrow> blank | Some v \<Rightarrow> Str (toFixed1 v))]"
    by (simp add: summaryToCsvRow_cells_def eval_nat_numeral)
  have fixed: "Str (toFixed1 v) \<noteq> blank" for v
    by (simp add: toFixed1_def blank_def Let_def)
  have imp: "((case w of None \<Rightarrow> blank | Some v \<Rightarrow> Str (toFixed1 v)) = blank) = (w = None)" for w
    using fixed by (cases w) simp_all
  have sblank: "map (\<lambda>c. c = blank) (drop 11 (summaryToCsvRow_cells summary timestamp)) =
       [originMedian summary = None, originP90 summary = None, originAvgImg summary = None,
        cdnMedian summary = None, cdnP90 summary = None, cdnAvgImg summary = None,
        improvementMedian summary = None, improvementP90 summary = None]"
    by (simp only: scols list.map orBlank_blank imp)
  from header cols row report srow scols sblank computeSummary_filled[of records] show ?thesis
    by (intro conjI)
qed

theorem csv_report_layout_witness:
  "recordToCsvRow
     \<lparr>timestamp_iso = ''2024-05-01T10:00:00.000Z'', page_id = ''home'', variant = ''origin'',
      run_index = 0, images_loaded_ms = Some 110, avg_image_ms = Some 42, images_total = Some 12,
      images_failed = Some 0, lcp_ms = Some 950, ttfb_ms = Some 35, rec_timeout = False,
      errors_count = Some 0, city = None, city_geo = None\<rparr>
     = ''2024-05-01T10:00:00.000Z,home,origin,1,110,42,35,950,12,0,0,,,,,,,,''
   \<and> drop 11 (recordToCsvRow_cells
     \<lparr>timestamp_iso = ''2024-05-01T10:00:00.000Z'', page_id = ''home'', variant = ''origin'',
      run_index = 0, images_loaded_ms = Some 110, avg_image_ms = Some 42, images_total = Some 12,
      images_failed = Some 0, lcp_ms = Some 950, ttfb_ms = Some 35, rec_timeout = False,
      errors_count = Some 0, city = None, city_geo = None\<rparr>) = replicate 8 blank"
proof -
  have digits: "show_nat 110 = ''110''" "show_nat 42 = ''42''" "show_nat 35 = ''35''"
    "show_nat 950 = ''950''" "show_nat 12 = ''12''" "show_nat 0 = ''0''" "show_nat 1 = ''1''" "show_nat (Suc 0) = ''1''"
    by (simp_all add: show_nat.simps[of 110] show_nat.simps[of 11] show_nat.simps[of 1]
        show_nat.simps[of 42] show_nat.simps[of 4] show_nat.simps[of 35] show_nat.simps[of 3]
        show_nat.simps[of 950] show_nat.simps[of 95] show_nat.simps[of 9] show_nat.simps[of 12]
        show_nat.simps[of 0] show_nat.simps[of "Suc 0"] del: show_nat.simps)
  from csv_report_layout[where r = "\<lparr>timestamp_iso = ''2024-05-01T10:00:00.000Z'', page_id = ''home'', variant = ''origin'',
      run_index = 0, images_loaded_ms = Some 110, avg_image_ms = Some 42, images_total = Some 12,
      images_failed = Some 0, lcp_ms = Some 950, ttfb_ms = Some 35, rec_timeout = False,
      errors_count = Some 0, city = None, city_geo = None\<rparr>"]
  have "drop 11 (recordToCsvRow_cells
     \<lparr>timestamp_iso = ''2024-05-01T10:00:00.000Z'', page_id = ''home'', variant = ''origin'',
      run_index = 0, images_loaded_ms = Some 110, avg_image_ms = Some 42, images_total = Some 12,
      images_failed = Some 0, lcp_ms = Some 950, ttfb_ms = Some 35, rec_timeout = False,
      errors_count = Some 0, city = None, city_geo = None\<rparr>) = replicate 8 blank"
    by blast
  moreover have "recordToCsvRow
     \<lparr>timestamp_iso = ''2024-05-01T10:00:00.000Z'', page_id = ''home'', variant = ''origin'',
      run_index = 0, images_loaded_ms = Some 110, avg_image_ms = Some 42, images_total = Some 12,
      images_failed = Some 0, lcp_ms = Some 950, ttfb_ms = Some 35, rec_timeout = False,
      errors_count = Some 0, city = None, city_geo = None\<rparr>
     = ''2024-05-01T10:00:00.000Z,home,origin,1,110,42,35,950,12,0,0,,,,,,,,''"
    by (simp add: recordToCsvRow_def recordToCsvRow_cells_def orBlank_def blank_def show_int_def digits
        del: show_nat.simps)
  ultimately show ?thesis by simp
qed

text \<open>
  C3 as the specification words it fails: when both trials of a run end without
  an image-load time (here, two navigation failures), the eight summary cells of the
  \<open>TOTAL\<close> row are all blank, and its first cell is the timestamp, not a blank.
\<close>

theorem csv_summary_row_counterexample:
  "summaryToCsvRow_cells
     (computeSummary
        [\<lparr>timestamp_iso = ''2024-05-01T10:00:00.000Z'', page_id = ''home'', variant = ''origin'',
          run_index = 0, images_loaded_ms = None, avg_image_ms = None, images_total = Some 0,
          images_failed = Some 0, lcp_ms = None, ttfb_ms = None, rec_timeout = True,
          errors_count = Some 0, city = None, city_geo = None\<rparr>,
         \<lparr>timestamp_iso = ''2024-05-01T10:01:00.000Z'', page_id = ''home'', variant = ''cdn'',
          run_index = 0, images_loaded_ms = None, avg_image_ms = None, images_total = Some 0,
          images_failed = Some 0, lcp_ms = None, ttfb_ms = None, rec_timeout = True,
          errors_count = Some 0, city = None, city_geo = None\<rparr>])
     ''2024-05-01T10:02:00.000Z''
   = [Str ''2024-05-01T10:02:00.000Z'', Str ''TOTAL'', Str ''-'', Str ''-'',
      Str [], Str [], Str [], Str [], Str [], Str [], Str [],
      Str [], Str [], Str [], Str [], Str [], Str [], Str [], Str []]"
  by (simp add: summaryToCsvRow_cells_def computeSummary_def notNull_def improvement_def orBlank_def
      blank_def Let_def)

end
